theory Spec2Isabelle
  imports Main "HOL-Library.AList"
begin

section \<open>Python primitives used by the snapshotter and the compactor\<close>

text \<open>
  The source is Python. Strings are \<open>char list\<close>, a character standing for the code
  point of the same number (below 256); integers are unbounded (\<open>int\<close>); a raised
  exception is a value of \<open>error\<close>. \<open>split_on\<close> is \<open>str.split(sep)\<close> for a
  one-character separator: it always returns at least one part, and two adjacent
  separators give an empty part.
\<close>

datatype error = ValueError | NoSuchKey | TypeError

fun split_on :: "char \<Rightarrow> string \<Rightarrow> string list" where
  "split_on sep [] = [[]]"
| "split_on sep (c # cs) =
     (if c = sep then [] # split_on sep cs
      else (case split_on sep cs of [] \<Rightarrow> [[c]] | p # ps \<Rightarrow> (c # p) # ps))"

definition startswith :: "string \<Rightarrow> string \<Rightarrow> bool" where
  "startswith s pre = (take (length pre) s = pre)"

definition endswith :: "string \<Rightarrow> string \<Rightarrow> bool" where
  "endswith s suf = (length suf \<le> length s \<and> drop (length s - length suf) s = suf)"

text \<open>
  \<open>py_int\<close> is \<open>int(s)\<close> in base 10: surrounding whitespace is stripped, one sign is
  allowed, and the digits may be grouped by single underscores. \<open>None\<close> stands for the
  \<open>ValueError\<close> that \<open>int\<close> raises on anything else; the callers turn it into
  \<open>Inl ValueError\<close>.

  The whitespace that \<open>int\<close> strips is the space, the controls \<open>0x09\<close> to \<open>0x0D\<close>
  and, beyond ASCII, the next-line control \<open>0x85\<close> and the no-break space \<open>0xA0\<close>. The
  separators \<open>0x1C\<close> to \<open>0x1F\<close>, which \<open>str.strip\<close> removes, are not among them:
  \<open>int\<close> raises on a string that begins or ends with one. There is no decimal digit
  below 256 other than \<open>0\<close> to \<open>9\<close>. The limit that an interpreter may set on the
  number of digits (4300 by default) is not modelled; the name of an object, at most
  1024 bytes long, does not reach it.
\<close>

definition is_space :: "char \<Rightarrow> bool" where
  "is_space c = (c \<in> set [CHR '' '', CHR 0x09, CHR 0x0A, CHR 0x0B, CHR 0x0C, CHR 0x0D,
                            CHR 0x85, CHR 0xA0])"

definition strip :: "string \<Rightarrow> string" where
  "strip s = rev (dropWhile is_space (rev (dropWhile is_space s)))"

definition is_digit :: "char \<Rightarrow> bool" where
  "is_digit c = (c \<in> set ''0123456789'')"

definition digit_val :: "char \<Rightarrow> nat" where
  "digit_val c = of_char c - (48::nat)"

fun parse_digits :: "nat \<Rightarrow> string \<Rightarrow> nat option" where
  "parse_digits acc [] = Some acc"
| "parse_digits acc (c # cs) =
     (if is_digit c then parse_digits (10 * acc + digit_val c) cs
      else if c = CHR ''_'' then
        (case cs of
           [] \<Rightarrow> None
         | d # ds \<Rightarrow> if is_digit d then parse_digits (10 * acc + digit_val d) ds else None)
      else None)"

definition py_nat :: "string \<Rightarrow> nat option" where
  "py_nat s =
     (case s of
        [] \<Rightarrow> None
      | c # cs \<Rightarrow> if is_digit c then parse_digits (digit_val c) cs else None)"

definition py_int :: "string \<Rightarrow> int option" where
  "py_int s =
     (case strip s of
        [] \<Rightarrow> None
      | c # cs \<Rightarrow>
          if c = CHR ''-'' then map_option (\<lambda>n. - int n) (py_nat cs)
          else if c = CHR ''+'' then map_option int (py_nat cs)
          else map_option int (py_nat (c # cs)))"

text \<open>\<open>str_int\<close> is how an f-string renders an integer: plain decimal, no padding.\<close>

definition digit_char :: "nat \<Rightarrow> char" where
  "digit_char d = ''0123456789'' ! (d mod 10)"

fun str_nat :: "nat \<Rightarrow> string" where
  "str_nat n = (if n < 10 then [digit_char n] else str_nat (n div 10) @ [digit_char (n mod 10)])"

declare str_nat.simps [simp del]

definition str_int :: "int \<Rightarrow> string" where
  "str_int i = (if i < 0 then CHR ''-'' # str_nat (nat (- i)) else str_nat (nat i))"


section \<open>Payloads and the object store\<close>

text \<open>
  A stored object is what \<open>msgpack_deserialization\<close> returns for its bytes: the state
  delta of one operator partition (\<open>KVPairs\<close>, a dict) or a sequencer record, the tuple
  \<open>(input offsets, output offsets, epoch, t_counter)\<close>. The codec is outside the
  repository. In the data model state deltas are stored under the names of operator
  partitions and sequencer records under the sequencer names; a payload of the other
  kind than the reader expects lies outside it, and the model gives the error
  \<open>TypeError\<close> there, whatever the interpreter does with such a value.

  The bucket is the list of its objects, each key once, in the order \<open>list_objects\<close>
  yields them. \<open>get_object\<close> on a missing key raises; \<open>remove_object\<close> on a missing key
  does nothing, as in S3.
\<close>

type_synonym OperatorPartition = "string \<times> int"

type_synonym ('k, 'v) KVPairs = "'k \<rightharpoonup> 'v"

type_synonym offsets = "OperatorPartition \<rightharpoonup> int"

type_synonym sequencer_record = "offsets \<times> offsets \<times> int \<times> int"

datatype ('k, 'v) payload =
    StateDelta "('k, 'v) KVPairs"
  | SequencerRecord offsets offsets int int

type_synonym ('k, 'v) bucket = "(string \<times> ('k, 'v) payload) list"

definition get_object :: "('k, 'v) bucket \<Rightarrow> string \<Rightarrow> error + ('k, 'v) payload" where
  "get_object b key = (case map_of b key of None \<Rightarrow> Inl NoSuchKey | Some p \<Rightarrow> Inr p)"

definition put_object :: "('k, 'v) bucket \<Rightarrow> string \<Rightarrow> ('k, 'v) payload \<Rightarrow> ('k, 'v) bucket" where
  "put_object b key p = AList.update key p b"

definition remove_object :: "('k, 'v) bucket \<Rightarrow> string \<Rightarrow> ('k, 'v) bucket" where
  "remove_object b key = AList.delete key b"

definition list_objects :: "('k, 'v) bucket \<Rightarrow> string \<Rightarrow> string list" where
  "list_objects b pre = filter (\<lambda>key. startswith key pre) (map fst b)"

fun as_kvpairs :: "('k, 'v) payload \<Rightarrow> error + ('k, 'v) KVPairs" where
  "as_kvpairs (StateDelta m) = Inr m"
| "as_kvpairs (SequencerRecord i out e t) = Inl TypeError"

fun as_sequencer :: "('k, 'v) payload \<Rightarrow> error + sequencer_record" where
  "as_sequencer (SequencerRecord i out e t) = Inr (i, out, e, t)"
| "as_sequencer (StateDelta m) = Inl TypeError"


section \<open>The compactor (coordinator/uncoordinated\_snapshot\_compactor.py)\<close>

text \<open>
  \<open>snapshots_per_worker\<close> is the nested \<open>defaultdict\<close>: worker id to operator partition
  to the list of \<open>(snapshot_id, file)\<close>. Both levels are association lists in insertion
  order, which is the order in which Python iterates a dict.
\<close>

type_synonym snapshots = "(int \<times> string) list"

type_synonym worker_snapshots = "(OperatorPartition \<times> snapshots) list"

type_synonym snapshots_per_worker = "(int \<times> worker_snapshots) list"

text \<open>
  Lines 28 to 39 of \<open>get_uncoordinated_snapshots_per_worker\<close>, for one file:
  \<open>Inr None\<close> is \<open>continue\<close>, \<open>Inl ValueError\<close> is what \<open>int(...)\<close> raises.
\<close>

definition parse_snapshot_file :: "string \<Rightarrow> error + (int \<times> OperatorPartition \<times> int) option" where
  "parse_snapshot_file sn_file =
     (if \<not> startswith sn_file ''uncoordinated/'' then Inr None
      else
        let parts = split_on CHR ''/'' sn_file in
        if length parts < 5 then Inr None
        else
          (case py_int (parts ! 1) of
             None \<Rightarrow> Inl ValueError
           | Some worker_id \<Rightarrow>
               (case py_int (parts ! 3) of
                  None \<Rightarrow> Inl ValueError
                | Some part \<Rightarrow>
                    (case py_int (hd (split_on CHR ''.'' (parts ! 4))) of
                       None \<Rightarrow> Inl ValueError
                     | Some snapshot_id \<Rightarrow>
                         Inr (Some (worker_id, (parts ! 2, part), snapshot_id))))))"

text \<open>\<open>snapshots_per_worker[worker_id][operator_partition].append(entry)\<close>, line 43.\<close>

definition append_snapshot ::
  "int \<Rightarrow> OperatorPartition \<Rightarrow> int \<times> string \<Rightarrow> snapshots_per_worker \<Rightarrow> snapshots_per_worker" where
  "append_snapshot worker_id operator_partition entry spw =
     (let ws = (case map_of spw worker_id of None \<Rightarrow> [] | Some ws \<Rightarrow> ws);
          sns = (case map_of ws operator_partition of None \<Rightarrow> [] | Some sns \<Rightarrow> sns)
      in AList.update worker_id (AList.update operator_partition (sns @ [entry]) ws) spw)"

text \<open>The loop of lines 27 to 43.\<close>

fun collect_snapshots ::
  "string list \<Rightarrow> int \<Rightarrow> snapshots_per_worker \<Rightarrow> error + snapshots_per_worker" where
  "collect_snapshots [] max_snap_id spw = Inr spw"
| "collect_snapshots (sn_file # rest) max_snap_id spw =
     (case parse_snapshot_file sn_file of
        Inl e \<Rightarrow> Inl e
      | Inr None \<Rightarrow> collect_snapshots rest max_snap_id spw
      | Inr (Some (worker_id, operator_partition, snapshot_id)) \<Rightarrow>
          if snapshot_id \<le> max_snap_id
          then collect_snapshots rest max_snap_id
                 (append_snapshot worker_id operator_partition (snapshot_id, sn_file) spw)
          else collect_snapshots rest max_snap_id spw)"

text \<open>Lines 46 to 48: every list is sorted by snapshot id (Python's sort is stable).\<close>

definition sort_snapshots :: "snapshots_per_worker \<Rightarrow> snapshots_per_worker" where
  "sort_snapshots spw =
     map (\<lambda>(worker_id, ws).
            (worker_id, map (\<lambda>(operator_partition, sns). (operator_partition, sort_key fst sns)) ws))
         spw"

definition get_uncoordinated_snapshots_per_worker ::
  "string list \<Rightarrow> int \<Rightarrow> error + snapshots_per_worker" where
  "get_uncoordinated_snapshots_per_worker snapshot_files max_snap_id =
     (case collect_snapshots snapshot_files max_snap_id [] of
        Inl e \<Rightarrow> Inl e
      | Inr spw \<Rightarrow> Inr (sort_snapshots spw))"

text \<open>
  Lines 73 to 79: the deltas of one group are read in list order and merged with
  \<open>dict.update\<close>; an empty (falsy) delta is skipped.
\<close>

fun merge_snapshots ::
  "('k, 'v) bucket \<Rightarrow> snapshots \<Rightarrow> ('k, 'v) KVPairs \<Rightarrow> error + ('k, 'v) KVPairs" where
  "merge_snapshots b [] data = Inr data"
| "merge_snapshots b ((sn_id, sn_name) # rest) data =
     (case get_object b sn_name of
        Inl e \<Rightarrow> Inl e
      | Inr p \<Rightarrow>
          (case as_kvpairs p of
             Inl e \<Rightarrow> Inl e
           | Inr partition_data \<Rightarrow>
               merge_snapshots b rest
                 (if partition_data \<noteq> Map.empty then data ++ partition_data else data)))"

definition merged_snapshot_path :: "int \<Rightarrow> OperatorPartition \<Rightarrow> string" where
  "merged_snapshot_path worker_id operator_partition =
     ''uncoordinated/'' @ str_int worker_id @ ''/'' @ fst operator_partition @ ''/'' @
       str_int (snd operator_partition) @ ''/0.bin''"

text \<open>
  Lines 65 to 87, the groups of one worker. The result is the bucket as the loop leaves
  it, and either the exception that ended it or \<open>snapshots_to_delete\<close>. An exception
  leaves the loop before the group's \<open>put_object\<close>, and the deletion list is lost with it.
\<close>

fun compact_partitions ::
  "int \<Rightarrow> worker_snapshots \<Rightarrow> ('k, 'v) bucket \<Rightarrow> string list \<Rightarrow>
   ('k, 'v) bucket \<times> (error + string list)" where
  "compact_partitions worker_id [] b snapshots_to_delete = (b, Inr snapshots_to_delete)"
| "compact_partitions worker_id ((operator_partition, sns) # rest) b snapshots_to_delete =
     (if length sns \<le> 1 then compact_partitions worker_id rest b snapshots_to_delete
      else
        (case merge_snapshots b sns Map.empty of
           Inl e \<Rightarrow> (b, Inl e)
         | Inr data \<Rightarrow>
             compact_partitions worker_id rest
               (if data \<noteq> Map.empty
                then put_object b (merged_snapshot_path worker_id operator_partition) (StateDelta data)
                else b)
               (snapshots_to_delete @ map snd sns)))"

text \<open>Lines 62 to 87, the loop over the workers.\<close>

fun compact_workers ::
  "snapshots_per_worker \<Rightarrow> ('k, 'v) bucket \<Rightarrow> string list \<Rightarrow>
   ('k, 'v) bucket \<times> (error + string list)" where
  "compact_workers [] b snapshots_to_delete = (b, Inr snapshots_to_delete)"
| "compact_workers ((worker_id, ws) # rest) b snapshots_to_delete =
     (case compact_partitions worker_id ws b snapshots_to_delete of
        (b', Inl e) \<Rightarrow> (b', Inl e)
      | (b', Inr to_delete) \<Rightarrow> compact_workers rest b' to_delete)"

text \<open>
  \<open>cleanup_compacted_files\<close> removes every listed key; its \<open>try\<close> swallows any exception,
  and removing a key raises none here.
\<close>

definition cleanup_compacted_files ::
  "('k, 'v) bucket \<Rightarrow> string list \<Rightarrow> string list \<Rightarrow> ('k, 'v) bucket" where
  "cleanup_compacted_files b sequencer_files_to_delete data_files_to_delete =
     fold (\<lambda>file_path b'. remove_object b' file_path)
          (sequencer_files_to_delete @ data_files_to_delete) b"

text \<open>
  \<open>compact_uncoordinated_deltas\<close>: the bucket after the call, and the exception it
  raised, if any.
\<close>

definition compact_uncoordinated_deltas ::
  "('k, 'v) bucket \<Rightarrow> string list \<Rightarrow> int \<Rightarrow> ('k, 'v) bucket \<times> error option" where
  "compact_uncoordinated_deltas b snapshot_files max_snap_id =
     (case get_uncoordinated_snapshots_per_worker snapshot_files max_snap_id of
        Inl e \<Rightarrow> (b, Some e)
      | Inr spw \<Rightarrow>
          (case compact_workers spw b [] of
             (b', Inl e) \<Rightarrow> (b', Some e)
           | (b', Inr snapshots_to_delete) \<Rightarrow>
               (if snapshots_to_delete \<noteq> []
                then cleanup_compacted_files b' [] snapshots_to_delete
                else b', None)))"

text \<open>
  \<open>start_uncoordinated_snapshot_compaction\<close> lists every object of the bucket whose
  name ends in \<open>.bin\<close> and compacts; it logs an exception and raises it again.
\<close>

definition start_uncoordinated_snapshot_compaction ::
  "('k, 'v) bucket \<Rightarrow> int \<Rightarrow> ('k, 'v) bucket \<times> error option" where
  "start_uncoordinated_snapshot_compaction b max_snap_id =
     compact_uncoordinated_deltas b
       (filter (\<lambda>name. endswith name ''.bin'') (list_objects b [])) max_snap_id"


section \<open>Recovery (worker/fault\_tolerance/uncoordinated\_snapshots.py)\<close>

text \<open>
  The fields of \<open>UncoordinatedSnapshotsMinio\<close> that are integers or booleans; the
  wall-clock fields play no part in \<open>retrieve_snapshot\<close>.
\<close>

record worker =
  worker_id :: int
  snapshot_id :: int
  n_assigned_partitions :: int
  completed_snapshots :: int
  snapshot_in_progress :: bool

definition get_snapshot_path :: "worker \<Rightarrow> string \<Rightarrow> int \<Rightarrow> int \<Rightarrow> string" where
  "get_snapshot_path self operator_name part sn_id =
     ''uncoordinated/'' @ str_int (worker_id self) @ ''/'' @ operator_name @ ''/'' @
       str_int part @ ''/'' @ str_int sn_id @ ''.bin''"

definition get_sequencer_path :: "worker \<Rightarrow> int \<Rightarrow> string" where
  "get_sequencer_path self sn_id =
     ''uncoordinated/'' @ str_int (worker_id self) @ ''/sequencer/'' @ str_int sn_id @ ''.bin''"

text \<open>
  Lines 145 to 148 and 173 to 176: each listed file is paired with the integer before
  the first dot of its last path segment, and the pairs are sorted by it.
\<close>

definition file_snapshot_id :: "string \<Rightarrow> int option" where
  "file_snapshot_id snapshot_file =
     py_int (hd (split_on CHR ''.'' (last (split_on CHR ''/'' snapshot_file))))"

fun parse_ids :: "string list \<Rightarrow> error + snapshots" where
  "parse_ids [] = Inr []"
| "parse_ids (snapshot_file # rest) =
     (case file_snapshot_id snapshot_file of
        None \<Rightarrow> Inl ValueError
      | Some sn_id \<Rightarrow>
          (case parse_ids rest of
             Inl e \<Rightarrow> Inl e
           | Inr xs \<Rightarrow> Inr ((sn_id, snapshot_file) # xs)))"

definition merge_order :: "string list \<Rightarrow> error + snapshots" where
  "merge_order snapshot_files =
     (case parse_ids snapshot_files of
        Inl e \<Rightarrow> Inl e
      | Inr xs \<Rightarrow> Inr (sort_key fst xs))"

definition bin_files :: "('k, 'v) bucket \<Rightarrow> string \<Rightarrow> string list" where
  "bin_files b pre = filter (\<lambda>name. endswith name ''.bin'') (list_objects b pre)"

text \<open>
  Lines 150 to 160, the deltas of one operator partition. \<open>data\<close> is the dict from
  operator partition to recovered state; a partition that was never assigned has no
  entry.
\<close>

fun merge_partition ::
  "('k, 'v) bucket \<Rightarrow> int \<Rightarrow> OperatorPartition \<Rightarrow> snapshots \<Rightarrow>
   (OperatorPartition \<rightharpoonup> ('k, 'v) KVPairs) \<Rightarrow> error + (OperatorPartition \<rightharpoonup> ('k, 'v) KVPairs)" where
  "merge_partition b target operator_partition [] data = Inr data"
| "merge_partition b target operator_partition ((sn_id, sn_name) # rest) data =
     (if sn_id > target then merge_partition b target operator_partition rest data
      else
        (case get_object b sn_name of
           Inl e \<Rightarrow> Inl e
         | Inr p \<Rightarrow>
             (case as_kvpairs p of
                Inl e \<Rightarrow> Inl e
              | Inr partition_data \<Rightarrow>
                  (case data operator_partition of
                     Some current \<Rightarrow>
                       if partition_data \<noteq> Map.empty
                       then merge_partition b target operator_partition rest
                              (data(operator_partition \<mapsto> current ++ partition_data))
                       else merge_partition b target operator_partition rest
                              (data(operator_partition \<mapsto> partition_data))
                   | None \<Rightarrow>
                       merge_partition b target operator_partition rest
                         (data(operator_partition \<mapsto> partition_data))))))"

definition partition_prefix :: "int \<Rightarrow> OperatorPartition \<Rightarrow> string" where
  "partition_prefix wid operator_partition =
     ''uncoordinated/'' @ str_int wid @ ''/'' @ fst operator_partition @ ''/'' @
       str_int (snd operator_partition) @ ''/''"

text \<open>Lines 132 to 160, the loop over the registered operator partitions.\<close>

fun recover_partitions ::
  "('k, 'v) bucket \<Rightarrow> int \<Rightarrow> int \<Rightarrow> OperatorPartition list \<Rightarrow>
   (OperatorPartition \<rightharpoonup> ('k, 'v) KVPairs) \<Rightarrow> error + (OperatorPartition \<rightharpoonup> ('k, 'v) KVPairs)" where
  "recover_partitions b wid target [] data = Inr data"
| "recover_partitions b wid target (operator_partition # rest) data =
     (case merge_order (bin_files b (partition_prefix wid operator_partition)) of
        Inl e \<Rightarrow> Inl e
      | Inr snapshot_merge_order \<Rightarrow>
          (case merge_partition b target operator_partition snapshot_merge_order data of
             Inl e \<Rightarrow> Inl e
           | Inr data' \<Rightarrow> recover_partitions b wid target rest data'))"

text \<open>Lines 183 to 189: every qualifying sequencer record replaces the previous one.\<close>

fun load_sequencer ::
  "('k, 'v) bucket \<Rightarrow> int \<Rightarrow> snapshots \<Rightarrow> sequencer_record \<Rightarrow> error + sequencer_record" where
  "load_sequencer b target [] current = Inr current"
| "load_sequencer b target ((sn_id, sn_name) # rest) current =
     (if sn_id > target then load_sequencer b target rest current
      else
        (case get_object b sn_name of
           Inl e \<Rightarrow> Inl e
         | Inr p \<Rightarrow>
             (case as_sequencer p of
                Inl e \<Rightarrow> Inl e
              | Inr rec \<Rightarrow> load_sequencer b target rest rec)))"

definition sequencer_prefix :: "int \<Rightarrow> string" where
  "sequencer_prefix wid = ''uncoordinated/'' @ str_int wid @ ''/sequencer/''"

text \<open>Lines 162 to 189.\<close>

definition recover_sequencer :: "('k, 'v) bucket \<Rightarrow> int \<Rightarrow> int \<Rightarrow> error + sequencer_record" where
  "recover_sequencer b wid target =
     (case merge_order (bin_files b (sequencer_prefix wid)) of
        Inl e \<Rightarrow> Inl e
      | Inr sequencer_merge_order \<Rightarrow>
          load_sequencer b target sequencer_merge_order (Map.empty, Map.empty, 0, 0))"

text \<open>
  \<open>retrieve_snapshot\<close> returns the worker after the call and either the exception or
  the tuple \<open>(data, input offsets, output offsets, epoch, t_counter)\<close>. The two offset
  components are optional because the fresh start returns \<open>None\<close> for them.
\<close>

type_synonym ('k, 'v) recovered =
  "(OperatorPartition \<rightharpoonup> ('k, 'v) KVPairs) \<times> offsets option \<times> offsets option \<times> int \<times> int"

definition retrieve_snapshot ::
  "worker \<Rightarrow> ('k, 'v) bucket \<Rightarrow> int \<Rightarrow> OperatorPartition list \<Rightarrow>
   worker \<times> (error + ('k, 'v) recovered)" where
  "retrieve_snapshot self b target registered_operators =
     (let self' = self\<lparr>snapshot_id := target + 1\<rparr> in
      if target = - 1 then (self', Inr (Map.empty, None, None, 0, 0))
      else
        (self',
         (case recover_partitions b (worker_id self') target registered_operators Map.empty of
            Inl e \<Rightarrow> Inl e
          | Inr data \<Rightarrow>
              (case recover_sequencer b (worker_id self') target of
                 Inl e \<Rightarrow> Inl e
               | Inr (topic_partition_offsets, topic_partition_output_offsets, epoch, t_counter) \<Rightarrow>
                   Inr (data, Some topic_partition_offsets, Some topic_partition_output_offsets,
                        epoch, t_counter)))))"


section \<open>Vocabulary of the properties\<close>

text \<open>
  The snapshot id of a stored object is the one recovery reads off its name.
  \<open>without_newer target b\<close> is the store \<open>b\<close> without the objects whose id exceeds the
  target.
\<close>

definition newer_than :: "int \<Rightarrow> string \<Rightarrow> bool" where
  "newer_than target name =
     (case file_snapshot_id name of None \<Rightarrow> False | Some sn_id \<Rightarrow> sn_id > target)"

definition without_newer :: "int \<Rightarrow> ('k, 'v) bucket \<Rightarrow> ('k, 'v) bucket" where
  "without_newer target b = filter (\<lambda>(name, p). \<not> newer_than target name) b"


text \<open>
  The sequencer files of a worker that qualify for a target, and what it means for one
  of them to carry the highest snapshot id among them.
\<close>

definition at_most :: "int \<Rightarrow> string \<Rightarrow> bool" where
  "at_most target name =
     (case file_snapshot_id name of None \<Rightarrow> False | Some sn_id \<Rightarrow> sn_id \<le> target)"

definition id_le :: "string \<Rightarrow> string \<Rightarrow> bool" where
  "id_le name name' =
     (case file_snapshot_id name of
        None \<Rightarrow> False
      | Some i \<Rightarrow> (case file_snapshot_id name' of None \<Rightarrow> False | Some j \<Rightarrow> i \<le> j))"

definition qualifying_sequencer_files :: "('k, 'v) bucket \<Rightarrow> int \<Rightarrow> int \<Rightarrow> string list" where
  "qualifying_sequencer_files b wid target =
     filter (at_most target) (bin_files b (sequencer_prefix wid))"

definition latest_sequencer_file :: "('k, 'v) bucket \<Rightarrow> int \<Rightarrow> int \<Rightarrow> string \<Rightarrow> bool" where
  "latest_sequencer_file b wid target name =
     (name \<in> set (qualifying_sequencer_files b wid target) \<and>
      list_all (\<lambda>other. id_le other name) (qualifying_sequencer_files b wid target))"


text \<open>
  A listed name is addressed to the compactor when it has the namespace prefix and at
  least five path segments; one of its integer fields is malformed when \<open>int\<close> rejects
  the worker id, the partition or the snapshot id.
\<close>

definition addressed :: "string \<Rightarrow> bool" where
  "addressed name =
     (startswith name ''uncoordinated/'' \<and> 5 \<le> length (split_on CHR ''/'' name))"

definition non_integer_field :: "string \<Rightarrow> bool" where
  "non_integer_field name =
     (let parts = split_on CHR ''/'' name
      in py_int (parts ! 1) = None \<or> py_int (parts ! 3) = None \<or>
         py_int (hd (split_on CHR ''.'' (parts ! 4))) = None)"


text \<open>
  A name with fewer than five path segments is short; every sequencer name is.
  \<open>short_objects b\<close> are the objects of \<open>b\<close> under short names, in the order of the
  store.
\<close>

definition short_key :: "string \<Rightarrow> bool" where
  "short_key name = (length (split_on CHR ''/'' name) < 5)"

definition short_objects :: "('k, 'v) bucket \<Rightarrow> ('k, 'v) bucket" where
  "short_objects b = filter (\<lambda>(name, p). short_key name) b"

text \<open>
  The group of a worker and operator partition in \<open>snapshots_per_worker\<close> (empty when
  there is none), the files of all groups, and the entries that a listing contributes to
  a group: the files that parse to this worker and partition with an id within the bound.
\<close>

definition group_of :: "snapshots_per_worker \<Rightarrow> int \<Rightarrow> OperatorPartition \<Rightarrow> snapshots" where
  "group_of spw wid opp =
     (case map_of spw wid of
        None \<Rightarrow> []
      | Some ws \<Rightarrow> (case map_of ws opp of None \<Rightarrow> [] | Some sns \<Rightarrow> sns))"

definition grouped_files :: "snapshots_per_worker \<Rightarrow> string list" where
  "grouped_files spw = concat (map (\<lambda>(wid, ws). concat (map (\<lambda>(opp, sns). map snd sns) ws)) spw)"

definition file_entry :: "int \<Rightarrow> int \<Rightarrow> OperatorPartition \<Rightarrow> string \<Rightarrow> (int \<times> string) option" where
  "file_entry max_snap_id wid opp name =
     (case parse_snapshot_file name of
        Inl e \<Rightarrow> None
      | Inr None \<Rightarrow> None
      | Inr (Some (wid', opp', sn_id)) \<Rightarrow>
          if wid' = wid \<and> opp' = opp \<and> sn_id \<le> max_snap_id then Some (sn_id, name) else None)"

definition group_entries :: "int \<Rightarrow> int \<Rightarrow> OperatorPartition \<Rightarrow> string list \<Rightarrow> snapshots" where
  "group_entries max_snap_id wid opp files = List.map_filter (file_entry max_snap_id wid opp) files"

definition groups_small :: "snapshots_per_worker \<Rightarrow> bool" where
  "groups_small spw = list_all (\<lambda>(wid, ws). list_all (\<lambda>(opp, sns). length sns \<le> 1) ws) spw"


text \<open>Both levels of \<open>snapshots_per_worker\<close> keep their keys distinct, as a dict does.\<close>

definition wf_spw :: "snapshots_per_worker \<Rightarrow> bool" where
  "wf_spw spw = (distinct (map fst spw) \<and> list_all (\<lambda>(wid, ws). distinct (map fst ws)) spw)"


section \<open>Concrete stores\<close>

text \<open>
  Worker 3 with the partition \<open>("orders", 0)\<close>, and the stores of the scenarios: three
  deltas at ids 0, 1 and 2; a delta followed by an empty one; two sequencer records; a
  delta whose name has no snapshot id; a delta whose snapshot id begins with the
  separator \<open>0x1F\<close>.
\<close>

definition worker3 :: worker where
  "worker3 = \<lparr>worker_id = 3, snapshot_id = 0, n_assigned_partitions = 1,
               completed_snapshots = 0, snapshot_in_progress = False\<rparr>"

definition orders_store :: "(string, int) bucket" where
  "orders_store =
     [(''uncoordinated/3/orders/0/0.bin'', StateDelta [''a'' \<mapsto> 1, ''b'' \<mapsto> 2]),
      (''uncoordinated/3/orders/0/1.bin'', StateDelta [''b'' \<mapsto> 3, ''c'' \<mapsto> 4]),
      (''uncoordinated/3/orders/0/2.bin'', StateDelta [''a'' \<mapsto> 5])]"

definition idle_store :: "(string, int) bucket" where
  "idle_store =
     [(''uncoordinated/3/orders/0/0.bin'', StateDelta [''a'' \<mapsto> 1]),
      (''uncoordinated/3/orders/0/1.bin'', StateDelta Map.empty)]"

definition sequencer_store :: "(string, int) bucket" where
  "sequencer_store =
     [(''uncoordinated/3/sequencer/0.bin'',
         SequencerRecord [(''p'', 0) \<mapsto> 10] [(''p'', 0) \<mapsto> 7] 1 4),
      (''uncoordinated/3/sequencer/1.bin'',
         SequencerRecord [(''p'', 0) \<mapsto> 20, (''p'', 1) \<mapsto> 5] Map.empty 2 9)]"

definition stray_store :: "(string, int) bucket" where
  "stray_store = [(''uncoordinated/3/orders/0/tmp.bin'', StateDelta [''a'' \<mapsto> 1])]"

definition separator_store :: "(string, int) bucket" where
  "separator_store =
     [(''uncoordinated/3/orders/0/'' @ [CHR 0x1F] @ ''9.bin'', StateDelta [''a'' \<mapsto> 1])]"

text \<open>The unfoldings that evaluate the model on a concrete store.\<close>

lemmas string_eval = startswith_def endswith_def py_int_def py_nat_def strip_def is_space_def
  is_digit_def digit_val_def str_int_def digit_char_def str_nat.simps

lemmas store_eval = get_object_def put_object_def remove_object_def list_objects_def

lemmas compactor_eval = start_uncoordinated_snapshot_compaction_def
  compact_uncoordinated_deltas_def get_uncoordinated_snapshots_per_worker_def
  parse_snapshot_file_def append_snapshot_def sort_snapshots_def merged_snapshot_path_def
  cleanup_compacted_files_def

lemmas recovery_eval = recover_sequencer_def merge_order_def bin_files_def
  file_snapshot_id_def partition_prefix_def sequencer_prefix_def


lemma worker3_id: "worker_id (worker3\<lparr>snapshot_id := n\<rparr>) = 3"
  by (simp add: worker3_def)


section \<open>Facts about the string primitives\<close>

subsection \<open>Splitting\<close>

lemma split_on_nonempty: "split_on sep s \<noteq> []"
  by (induction s) (auto split: list.splits)

lemma split_on_no_sep: "p \<in> set (split_on sep s) \<Longrightarrow> sep \<notin> set p"
  by (induction s arbitrary: p) (auto split: if_splits list.splits)

lemma split_on_single: "sep \<notin> set a \<Longrightarrow> split_on sep a = [a]"
  by (induction a) auto

lemma split_on_append: "sep \<notin> set a \<Longrightarrow> split_on sep (a @ sep # r) = a # split_on sep r"
  by (induction a) auto

lemma length_split_on: "length (split_on sep s) = Suc (length (filter (\<lambda>c. c = sep) s))"
  by (induction s) (auto split: list.splits simp: split_on_nonempty)

subsection \<open>Decimal rendering and parsing\<close>

lemma digit_char_ok: "d < 10 \<Longrightarrow> is_digit (digit_char d) \<and> digit_val (digit_char d) = d"
proof -
  assume "d < 10"
  then have "d \<in> {0,1,2,3,4,5,6,7,8,9}" by auto
  then show ?thesis by (auto simp: is_digit_def digit_char_def digit_val_def)
qed

lemma parse_digits_snoc:
  "list_all is_digit ds \<Longrightarrow> is_digit d \<Longrightarrow>
   parse_digits acc (ds @ [d]) = map_option (\<lambda>v. 10 * v + digit_val d) (parse_digits acc ds)"
  by (induction ds arbitrary: acc) auto

lemma str_nat_digits: "list_all is_digit (str_nat n)"
  by (induction n rule: str_nat.induct) (subst str_nat.simps, simp add: digit_char_ok)

lemma str_nat_nonempty: "str_nat n \<noteq> []"
  by (subst str_nat.simps) simp

lemma py_nat_snoc:
  assumes "s \<noteq> []" "list_all is_digit s" "is_digit d"
  shows "py_nat (s @ [d]) = map_option (\<lambda>v. 10 * v + digit_val d) (py_nat s)"
proof -
  from assms(1) obtain c cs where s: "s = c # cs" by (cases s) auto
  with assms show ?thesis by (simp add: py_nat_def parse_digits_snoc)
qed

lemma py_nat_str_nat: "py_nat (str_nat n) = Some n"
proof (induction n rule: str_nat.induct)
  case (1 n)
  show ?case
  proof (cases "n < 10")
    case True
    then show ?thesis by (subst str_nat.simps) (simp add: py_nat_def digit_char_ok)
  next
    case False
    have d: "is_digit (digit_char (n mod 10))" "digit_val (digit_char (n mod 10)) = n mod 10"
      by (simp_all add: digit_char_ok)
    have "py_nat (str_nat (n div 10) @ [digit_char (n mod 10)]) = Some (10 * (n div 10) + n mod 10)"
      using "1.IH" [OF False] d by (simp add: py_nat_snoc str_nat_nonempty str_nat_digits)
    with False show ?thesis by (subst str_nat.simps) simp
  qed
qed

lemma digit_not_special:
  "is_digit c \<Longrightarrow> \<not> is_space c \<and> c \<noteq> CHR ''-'' \<and> c \<noteq> CHR ''+'' \<and> c \<noteq> CHR ''/'' \<and> c \<noteq> CHR ''.''"
  by (auto simp: is_digit_def is_space_def)

lemma strip_id: "s \<noteq> [] \<Longrightarrow> \<not> is_space (hd s) \<Longrightarrow> \<not> is_space (last s) \<Longrightarrow> strip s = s"
proof -
  assume a: "s \<noteq> []" "\<not> is_space (hd s)" "\<not> is_space (last s)"
  then have "dropWhile is_space s = s" by (cases s) auto
  moreover have "dropWhile is_space (rev s) = rev s"
    using a by (cases "rev s") (auto simp: last_rev [symmetric] hd_rev)
  ultimately show ?thesis by (simp add: strip_def)
qed

lemma str_nat_hd_last: "is_digit (hd (str_nat n)) \<and> is_digit (last (str_nat n))"
  using str_nat_digits [of n] str_nat_nonempty [of n]
  by (cases "str_nat n") (auto simp: list_all_iff)

lemma py_int_str_int: "py_int (str_int i) = Some i"
proof (cases "i < 0")
  case True
  have nl: "\<not> is_space (last (str_nat (nat (- i))))"
    using str_nat_hd_last digit_not_special by blast
  have nh: "\<not> is_space CHR ''-''" by (simp add: is_space_def)
  have "strip (CHR ''-'' # str_nat (nat (- i))) = CHR ''-'' # str_nat (nat (- i))"
    using nl nh str_nat_nonempty [of "nat (- i)"] by (intro strip_id) simp_all
  with True show ?thesis by (simp add: py_int_def str_int_def py_nat_str_nat)
next
  case False
  have "\<not> is_space (hd (str_nat (nat i)))" "\<not> is_space (last (str_nat (nat i)))"
    using str_nat_hd_last digit_not_special by blast+
  then have s: "strip (str_nat (nat i)) = str_nat (nat i)"
    using str_nat_nonempty [of "nat i"] by (intro strip_id) simp_all
  obtain c cs where c: "str_nat (nat i) = c # cs"
    using str_nat_nonempty [of "nat i"] by (cases "str_nat (nat i)") auto
  then have "is_digit c" using str_nat_hd_last [of "nat i"] by simp
  then have "c \<noteq> CHR ''-''" "c \<noteq> CHR ''+''" by (auto simp: digit_not_special)
  moreover have "py_nat (c # cs) = Some (nat i)" using py_nat_str_nat [of "nat i"] c by simp
  ultimately show ?thesis using False s c by (simp add: py_int_def str_int_def)
qed

lemma str_int_chars: "c \<in> set (str_int i) \<Longrightarrow> is_digit c \<or> c = CHR ''-''"
  using str_nat_digits by (auto simp: str_int_def list_all_iff split: if_splits)

lemma str_int_no_slash: "CHR ''/'' \<notin> set (str_int i)"
  using str_int_chars [of "CHR ''/''" i] by (auto simp: is_digit_def)

text \<open>
  What \<open>int\<close> strips and what it does not: a leading no-break space is whitespace, a
  leading unit separator is not, and a name that carries one raises in recovery and in
  the compactor.
\<close>

lemma py_int_no_break_space: "py_int [CHR 0xA0, CHR ''7''] = Some 7"
  by (simp add: py_int_def py_nat_def strip_def is_space_def is_digit_def digit_val_def)

lemma py_int_unit_separator: "py_int [CHR 0x1F, CHR ''7''] = None"
  by (simp add: py_int_def py_nat_def strip_def is_space_def is_digit_def digit_val_def)

lemma recovery_raises_on_separator:
  "snd (retrieve_snapshot worker3 separator_store 1 [(''orders'', 0)]) = Inl ValueError"
  unfolding retrieve_snapshot_def Let_def worker3_id
  by (simp add: separator_store_def recovery_eval string_eval store_eval)

lemma compaction_raises_on_separator:
  "start_uncoordinated_snapshot_compaction separator_store 9 = (separator_store, Some ValueError)"
  by (simp add: separator_store_def compactor_eval string_eval store_eval)

subsection \<open>Storage keys\<close>

lemma startswith_append: "startswith (pre @ r) pre"
  by (simp add: startswith_def)

lemma endswith_append: "endswith (r @ suf) suf"
  by (simp add: endswith_def)

lemma py_int_zero: "py_int ''0'' = Some 0"
  by (simp add: py_int_def py_nat_def strip_def is_space_def is_digit_def digit_val_def)

lemma split_merged_snapshot_path:
  assumes "CHR ''/'' \<notin> set op"
  shows "split_on CHR ''/'' (merged_snapshot_path w (op, p)) =
           [''uncoordinated'', str_int w, op, str_int p, ''0.bin'']"
proof -
  have "merged_snapshot_path w (op, p) =
          ''uncoordinated'' @ CHR ''/'' # (str_int w @ CHR ''/'' # (op @ CHR ''/'' # (str_int p @ CHR ''/'' # ''0.bin'')))"
    by (simp add: merged_snapshot_path_def)
  then show ?thesis
    using assms str_int_no_slash
    by (simp only: split_on_append) (simp add: split_on_append split_on_single)
qed

lemma parse_merged_snapshot_path:
  assumes "CHR ''/'' \<notin> set op"
  shows "parse_snapshot_file (merged_snapshot_path w (op, p)) = Inr (Some (w, (op, p), 0))"
proof -
  have "startswith (merged_snapshot_path w (op, p)) ''uncoordinated/''"
    unfolding merged_snapshot_path_def by (rule startswith_append)
  then show ?thesis
    by (simp add: parse_snapshot_file_def split_merged_snapshot_path [OF assms] py_int_str_int py_int_zero)
qed

lemma endswith_merged_snapshot_path: "endswith (merged_snapshot_path w opp) ''.bin''"
proof -
  have "merged_snapshot_path w opp =
    (''uncoordinated/'' @ str_int w @ ''/'' @ fst opp @ ''/'' @ str_int (snd opp) @ ''/0'') @ ''.bin''"
    by (simp add: merged_snapshot_path_def)
  then show ?thesis by (simp only: endswith_append)
qed

lemma segments_merged_snapshot_path: "5 \<le> length (split_on CHR ''/'' (merged_snapshot_path w opp))"
  by (simp add: length_split_on merged_snapshot_path_def)

lemma parse_snapshot_file_Some:
  assumes "parse_snapshot_file f = Inr (Some (w, (op, p), i))"
  shows "CHR ''/'' \<notin> set op" and "5 \<le> length (split_on CHR ''/'' f)"
    and "startswith f ''uncoordinated/''"
proof -
  from assms have l: "5 \<le> length (split_on CHR ''/'' f)" and s: "startswith f ''uncoordinated/''"
    by (auto simp: parse_snapshot_file_def Let_def split: if_splits)
  from assms l s have "op = split_on CHR ''/'' f ! 2"
    by (auto simp: parse_snapshot_file_def Let_def split: if_splits option.splits)
  moreover have "split_on CHR ''/'' f ! 2 \<in> set (split_on CHR ''/'' f)"
    using l by (intro nth_mem) simp
  ultimately show "CHR ''/'' \<notin> set op" by (simp add: split_on_no_sep)
  show "5 \<le> length (split_on CHR ''/'' f)" by (rule l)
  show "startswith f ''uncoordinated/''" by (rule s)
qed

lemma segments_sequencer_path: "length (split_on CHR ''/'' (get_sequencer_path self i)) = 4"
proof -
  have "get_sequencer_path self i =
     ''uncoordinated'' @ CHR ''/'' # (str_int (worker_id self) @ CHR ''/'' # (''sequencer'' @ CHR ''/'' # (str_int i @ ''.bin'')))"
    by (simp add: get_sequencer_path_def)
  moreover have "CHR ''/'' \<notin> set (str_int i @ ''.bin'')" using str_int_no_slash by simp
  ultimately show ?thesis
    using str_int_no_slash by (simp add: split_on_append split_on_single del: append.simps set_append)
qed


text \<open>
  The id that recovery reads off a name is the id the name was rendered from, for the
  state deltas and for the sequencer records alike.
\<close>

lemma last_split_on_Cons:
  assumes "sep \<in> set s"
  shows "last (split_on sep (c # s)) = last (split_on sep s)"
proof (cases "c = sep")
  case True
  then show ?thesis by (simp add: split_on_nonempty)
next
  case False
  from assms have "filter (\<lambda>x. x = sep) s \<noteq> []" by (auto simp: filter_empty_conv)
  then have "2 \<le> length (split_on sep s)"
    by (cases "filter (\<lambda>x. x = sep) s") (simp_all add: length_split_on)
  then obtain p q ps where "split_on sep s = p # q # ps"
    by (cases "split_on sep s"; cases "tl (split_on sep s)") auto
  with False show ?thesis by simp
qed

lemma last_split_on: "sep \<notin> set r \<Longrightarrow> last (split_on sep (a @ sep # r)) = r"
proof (induction a)
  case Nil
  then show ?case by (simp add: split_on_single)
next
  case (Cons c a)
  have "sep \<in> set (a @ sep # r)" by simp
  from last_split_on_Cons [OF this, of c] Cons show ?case by simp
qed

lemma str_int_no_dot: "CHR ''.'' \<notin> set (str_int i)"
  using str_int_chars [of "CHR ''.''" i] by (auto simp: is_digit_def)

lemma file_snapshot_id_rendered:
  assumes "CHR ''/'' \<notin> set (str_int i @ ''.bin'')"
  shows "file_snapshot_id (a @ CHR ''/'' # (str_int i @ ''.bin'')) = Some i"
proof -
  have "last (split_on CHR ''/'' (a @ CHR ''/'' # (str_int i @ ''.bin''))) = str_int i @ ''.bin''"
    using assms by (rule last_split_on)
  moreover have "split_on CHR ''.'' (str_int i @ CHR ''.'' # ''bin'') = str_int i # split_on CHR ''.'' ''bin''"
    using str_int_no_dot by (rule split_on_append)
  ultimately show ?thesis by (simp add: file_snapshot_id_def py_int_str_int)
qed

lemma file_snapshot_id_snapshot_path:
  "file_snapshot_id (get_snapshot_path self operator_name part i) = Some i"
proof -
  have "get_snapshot_path self operator_name part i =
          (''uncoordinated/'' @ str_int (worker_id self) @ ''/'' @ operator_name @ ''/'' @ str_int part)
            @ CHR ''/'' # (str_int i @ ''.bin'')"
    by (simp add: get_snapshot_path_def)
  moreover have "CHR ''/'' \<notin> set (str_int i @ ''.bin'')" using str_int_no_slash by simp
  ultimately show ?thesis using file_snapshot_id_rendered by metis
qed

lemma file_snapshot_id_sequencer_path:
  "file_snapshot_id (get_sequencer_path self i) = Some i"
proof -
  have "get_sequencer_path self i =
          (''uncoordinated/'' @ str_int (worker_id self) @ ''/sequencer'')
            @ CHR ''/'' # (str_int i @ ''.bin'')"
    by (simp add: get_sequencer_path_def)
  moreover have "CHR ''/'' \<notin> set (str_int i @ ''.bin'')" using str_int_no_slash by simp
  ultimately show ?thesis using file_snapshot_id_rendered by metis
qed


section \<open>The snapshot id counter and the fresh start\<close>

text \<open>
  C10. Every call of \<open>retrieve_snapshot\<close> sets the worker's snapshot id to the target
  plus one, whatever the store holds and whether or not the call raises later; nothing
  else of the worker changes. After a fresh start (target \<open>-1\<close>) the next id is 0.
\<close>

theorem retrieve_snapshot_sets_next_id:
  "fst (retrieve_snapshot self b target registered_operators) = self\<lparr>snapshot_id := target + 1\<rparr>"
  by (simp add: retrieve_snapshot_def Let_def)

theorem retrieve_snapshot_sets_next_id_witness:
  "snapshot_id (fst (retrieve_snapshot worker3 orders_store (- 1) [(''orders'', 0)])) = 0"
  using retrieve_snapshot_sets_next_id [of worker3 orders_store "- 1" "[(''orders'', 0)]"]
  by simp

text \<open>
  C4 as stated asks for an empty state map for every partition and for empty offset
  maps. At target \<open>-1\<close> the code returns a dict without any partition and \<open>None\<close> for
  both offset maps.
\<close>

theorem fresh_start_counterexample:
  "snd (retrieve_snapshot worker3 orders_store (- 1) [(''orders'', 0)])
     = Inr (Map.empty, None, None, 0, 0) \<and>
   snd (retrieve_snapshot worker3 orders_store (- 1) [(''orders'', 0)])
     \<noteq> Inr ([(''orders'', 0) \<mapsto> Map.empty], Some Map.empty, Some Map.empty, 0, 0)"
  by (simp add: retrieve_snapshot_def)

text \<open>
  C4, amended. For every worker, store and list of owned partitions, \<open>retrieve_snapshot\<close>
  at target \<open>-1\<close> raises nothing and returns a state dict with no entry at all, no
  offset maps (\<open>None\<close> twice), epoch 0 and t-counter 0; the next snapshot id is 0.
\<close>

theorem fresh_start:
  "retrieve_snapshot self b (- 1) registered_operators =
     (self\<lparr>snapshot_id := 0\<rparr>, Inr (Map.empty, None, None, 0, 0))"
  by (simp add: retrieve_snapshot_def)

theorem fresh_start_witness:
  "retrieve_snapshot worker3 orders_store (- 1) [(''orders'', 0)] =
     (worker3\<lparr>snapshot_id := 0\<rparr>, Inr (Map.empty, None, None, 0, 0))"
  using fresh_start [of worker3 orders_store "[(''orders'', 0)]"] by simp

section \<open>Two defects, evaluated\<close>

text \<open>
  C2. Worker 3 wrote the delta \<open>{a: 1}\<close> at id 0 and an empty delta at id 1. Recovery at
  target 1 must keep \<open>a\<close>, which no later delta overwrote. The test
  \<open>operator_partition in data and partition_data\<close> of line 157 is false for the empty
  delta, so line 160 replaces the state recovered so far by the empty dict.
\<close>

theorem empty_delta_discards_state:
  "snd (retrieve_snapshot worker3 idle_store 1 [(''orders'', 0)]) =
     Inr ([(''orders'', 0) \<mapsto> Map.empty], Some Map.empty, Some Map.empty, 0, 0)"
  unfolding retrieve_snapshot_def Let_def worker3_id
  by (simp add: idle_store_def recovery_eval string_eval store_eval)

text \<open>
  C1. The group of worker 3, operator \<open>orders\<close>, partition 0 has deltas at ids 0, 1 and
  2. Compaction with bound 2 writes the merge to \<open>.../0.bin\<close>, which is also the first
  source key, and then deletes every source key: the store ends up empty and the merged
  base is lost.
\<close>

theorem compaction_deletes_merged_base:
  "start_uncoordinated_snapshot_compaction orders_store 2 = ([], None)"
  by (simp add: orders_store_def compactor_eval string_eval store_eval)


section \<open>Recovery reads nothing beyond the target\<close>

lemma bin_files_without_newer:
  "bin_files (without_newer target b) pre = filter (\<lambda>name. \<not> newer_than target name) (bin_files b pre)"
proof -
  have "map fst (without_newer target b) = filter (\<lambda>name. \<not> newer_than target name) (map fst b)"
    by (induction b) (auto simp: without_newer_def)
  then show ?thesis
    by (auto simp: bin_files_def list_objects_def intro!: filter_cong)
qed

lemma parse_ids_error: "parse_ids fs = Inl e \<Longrightarrow> e = ValueError"
  by (induction fs arbitrary: e) (auto split: option.splits sum.splits)

lemma parse_ids_ids: "parse_ids fs = Inr xs \<Longrightarrow> (i, name) \<in> set xs \<Longrightarrow> file_snapshot_id name = Some i"
  by (induction fs arbitrary: xs) (auto split: option.splits sum.splits)

lemma parse_ids_names: "parse_ids fs = Inr xs \<Longrightarrow> map snd xs = fs"
  by (induction fs arbitrary: xs) (auto split: option.splits sum.splits)

lemma parse_ids_without_newer:
  "parse_ids (filter (\<lambda>name. \<not> newer_than target name) fs) =
     (case parse_ids fs of Inl e \<Rightarrow> Inl e | Inr xs \<Rightarrow> Inr (filter (\<lambda>(i, name). i \<le> target) xs))"
proof (induction fs)
  case Nil
  then show ?case by simp
next
  case (Cons f fs)
  show ?case
  proof (cases "file_snapshot_id f")
    case None
    then show ?thesis by (simp add: newer_than_def)
  next
    case (Some i)
    then show ?thesis using Cons.IH
      by (cases "parse_ids fs") (auto simp: newer_than_def dest: parse_ids_error)
  qed
qed

lemma merge_order_without_newer:
  "merge_order (filter (\<lambda>name. \<not> newer_than target name) fs) =
     (case merge_order fs of Inl e \<Rightarrow> Inl e | Inr xs \<Rightarrow> Inr (filter (\<lambda>(i, name). i \<le> target) xs))"
  by (simp add: merge_order_def parse_ids_without_newer filter_sort split: sum.splits)

lemma merge_order_ids: "merge_order fs = Inr xs \<Longrightarrow> (i, name) \<in> set xs \<Longrightarrow> file_snapshot_id name = Some i"
  by (auto simp: merge_order_def split: sum.splits dest: parse_ids_ids)

lemma get_object_without_newer:
  "\<not> newer_than target name \<Longrightarrow> get_object (without_newer target b) name = get_object b name"
proof -
  assume "\<not> newer_than target name"
  then have "map_of (without_newer target b) name = map_of b name"
    by (induction b) (auto simp: without_newer_def)
  then show ?thesis by (simp add: get_object_def)
qed

lemma merge_partition_without_newer:
  assumes "\<And>i name. (i, name) \<in> set xs \<Longrightarrow> file_snapshot_id name = Some i"
  shows "merge_partition (without_newer target b) target opp (filter (\<lambda>(i, name). i \<le> target) xs) data =
         merge_partition b target opp xs data"
  using assms
proof (induction xs arbitrary: data)
  case Nil
  then show ?case by simp
next
  case (Cons x xs)
  obtain i name where x: "x = (i, name)" by (cases x)
  have ih: "\<And>data. merge_partition (without_newer target b) target opp
               (filter (\<lambda>(i, name). i \<le> target) xs) data = merge_partition b target opp xs data"
    using Cons by simp
  show ?case
  proof (cases "i \<le> target")
    case True
    have "file_snapshot_id name = Some i" using Cons.prems x by simp
    with True have "\<not> newer_than target name" by (simp add: newer_than_def)
    then have g: "get_object (without_newer target b) name = get_object b name"
      by (rule get_object_without_newer)
    show ?thesis using True x g ih
      by (simp split: sum.splits option.splits)
  next
    case False
    then show ?thesis using x ih by simp
  qed
qed

lemma load_sequencer_without_newer:
  assumes "\<And>i name. (i, name) \<in> set xs \<Longrightarrow> file_snapshot_id name = Some i"
  shows "load_sequencer (without_newer target b) target (filter (\<lambda>(i, name). i \<le> target) xs) cur =
         load_sequencer b target xs cur"
  using assms
proof (induction xs arbitrary: cur)
  case Nil
  then show ?case by simp
next
  case (Cons x xs)
  obtain i name where x: "x = (i, name)" by (cases x)
  have ih: "\<And>cur. load_sequencer (without_newer target b) target
               (filter (\<lambda>(i, name). i \<le> target) xs) cur = load_sequencer b target xs cur"
    using Cons by simp
  show ?case
  proof (cases "i \<le> target")
    case True
    have "file_snapshot_id name = Some i" using Cons.prems x by simp
    with True have "\<not> newer_than target name" by (simp add: newer_than_def)
    then have g: "get_object (without_newer target b) name = get_object b name"
      by (rule get_object_without_newer)
    show ?thesis using True x g ih
      by (simp split: sum.splits)
  next
    case False
    then show ?thesis using x ih by simp
  qed
qed

lemma recover_partitions_without_newer:
  "recover_partitions (without_newer target b) wid target ops data =
   recover_partitions b wid target ops data"
proof (induction ops arbitrary: data)
  case Nil
  then show ?case by simp
next
  case (Cons opp ops)
  show ?case
  proof (cases "merge_order (bin_files b (partition_prefix wid opp))")
    case (Inl e)
    then show ?thesis by (simp add: bin_files_without_newer merge_order_without_newer)
  next
    case (Inr xs)
    then have "merge_partition (without_newer target b) target opp (filter (\<lambda>(i, name). i \<le> target) xs) data =
         merge_partition b target opp xs data" for data
      by (intro merge_partition_without_newer) (rule merge_order_ids)
    with Inr show ?thesis
      by (simp add: bin_files_without_newer merge_order_without_newer Cons.IH cong: sum.case_cong)
  qed
qed

lemma recover_sequencer_without_newer:
  "recover_sequencer (without_newer target b) wid target = recover_sequencer b wid target"
proof (cases "merge_order (bin_files b (sequencer_prefix wid))")
  case (Inl e)
  then show ?thesis
    by (simp add: recover_sequencer_def bin_files_without_newer merge_order_without_newer)
next
  case (Inr xs)
  then have "load_sequencer (without_newer target b) target (filter (\<lambda>(i, name). i \<le> target) xs) cur =
         load_sequencer b target xs cur" for cur
    by (intro load_sequencer_without_newer) (rule merge_order_ids)
  with Inr show ?thesis
    by (simp add: recover_sequencer_def bin_files_without_newer merge_order_without_newer)
qed

lemma retrieve_snapshot_without_newer:
  "retrieve_snapshot self (without_newer target b) target ops = retrieve_snapshot self b target ops"
  by (simp add: retrieve_snapshot_def Let_def recover_partitions_without_newer
      recover_sequencer_without_newer cong: sum.case_cong)

text \<open>
  C5. Two stores that hold the same objects once every object whose snapshot id exceeds
  the target is left out give the same result, state maps, sequencer metadata and
  errors alike: no delta beyond the target enters the result of \<open>retrieve_snapshot\<close>.
\<close>

theorem recovery_ignores_newer_deltas:
  assumes "without_newer target b = without_newer target b'"
  shows "retrieve_snapshot self b target ops = retrieve_snapshot self b' target ops"
proof -
  have "retrieve_snapshot self b target ops = retrieve_snapshot self (without_newer target b) target ops"
    by (simp add: retrieve_snapshot_without_newer)
  also have "\<dots> = retrieve_snapshot self (without_newer target b') target ops"
    by (simp add: assms)
  also have "\<dots> = retrieve_snapshot self b' target ops"
    by (simp add: retrieve_snapshot_without_newer)
  finally show ?thesis .
qed

theorem recovery_ignores_newer_deltas_witness:
  "without_newer 1 orders_store = without_newer 1 (butlast orders_store) \<and>
   retrieve_snapshot worker3 orders_store 1 [(''orders'', 0)] =
     retrieve_snapshot worker3 (butlast orders_store) 1 [(''orders'', 0)]"
proof -
  have h: "without_newer 1 orders_store = without_newer 1 (butlast orders_store)"
    by (simp add: without_newer_def newer_than_def orders_store_def file_snapshot_id_def string_eval)
  from h recovery_ignores_newer_deltas [OF h] show ?thesis by simp
qed


section \<open>The sequencer record that recovery returns\<close>

lemma sorted_le_last: "sorted xs \<Longrightarrow> x \<in> set xs \<Longrightarrow> x \<le> last xs"
  by (induction xs) auto

lemma parse_ids_mem:
  "parse_ids fs = Inr xs \<Longrightarrow> name \<in> set fs \<Longrightarrow> file_snapshot_id name = Some i \<Longrightarrow> (i, name) \<in> set xs"
  by (induction fs arbitrary: xs) (auto split: option.splits sum.splits)

lemma parse_ids_snd: "parse_ids fs = Inr xs \<Longrightarrow> (i, name) \<in> set xs \<Longrightarrow> name \<in> set fs"
  using parse_ids_names [of fs xs] by force

lemma load_sequencer_last:
  "load_sequencer b target xs cur = Inr r \<Longrightarrow>
   (if filter (\<lambda>(i, name). i \<le> target) xs = [] then r = cur
    else \<exists>p. map_of b (snd (last (filter (\<lambda>(i, name). i \<le> target) xs))) = Some p \<and>
             as_sequencer p = Inr r)"
proof (induction xs arbitrary: cur)
  case Nil
  then show ?case by simp
next
  case (Cons x xs)
  obtain i name where x: "x = (i, name)" by (cases x)
  show ?case
  proof (cases "i \<le> target")
    case False
    then show ?thesis using Cons x by simp
  next
    case True
    with Cons.prems x obtain p rec where
      p: "map_of b name = Some p" "as_sequencer p = Inr rec"
      and rest: "load_sequencer b target xs rec = Inr r"
      by (auto simp: get_object_def split: option.splits sum.splits)
    from Cons.IH [OF rest] show ?thesis using True x p by (auto split: if_splits)
  qed
qed

lemma recover_sequencer_result:
  assumes "recover_sequencer b wid target = Inr (inputs, outputs, epoch, t_counter)"
  shows "if qualifying_sequencer_files b wid target = []
         then inputs = Map.empty \<and> outputs = Map.empty \<and> epoch = 0 \<and> t_counter = 0
         else \<exists>name. latest_sequencer_file b wid target name \<and>
                map_of b name = Some (SequencerRecord inputs outputs epoch t_counter)"
proof -
  let ?fs = "bin_files b (sequencer_prefix wid)"
  let ?q = "\<lambda>(i, name). i \<le> target"
  from assms obtain ys where ys: "parse_ids ?fs = Inr ys"
    and load: "load_sequencer b target (sort_key fst ys) (Map.empty, Map.empty, 0, 0) =
                 Inr (inputs, outputs, epoch, t_counter)"
    by (auto simp: recover_sequencer_def merge_order_def split: sum.splits)
  let ?Q = "filter ?q (sort_key fst ys)"
  have Qset: "set ?Q = {(i, name). (i, name) \<in> set ys \<and> i \<le> target}" by auto
  have qual: "set (qualifying_sequencer_files b wid target) = snd ` set ?Q"
  proof (intro set_eqI iffI)
    fix name assume "name \<in> set (qualifying_sequencer_files b wid target)"
    then have n: "name \<in> set ?fs" and a: "at_most target name"
      by (auto simp: qualifying_sequencer_files_def)
    from a obtain i where i: "file_snapshot_id name = Some i" "i \<le> target"
      by (auto simp: at_most_def split: option.splits)
    with parse_ids_mem [OF ys n] have "(i, name) \<in> set ?Q" by auto
    then show "name \<in> snd ` set ?Q" by force
  next
    fix name assume "name \<in> snd ` set ?Q"
    then obtain i where m: "(i, name) \<in> set ys" "i \<le> target" by auto
    with parse_ids_ids [OF ys] parse_ids_snd [OF ys]
    show "name \<in> set (qualifying_sequencer_files b wid target)"
      by (auto simp: qualifying_sequencer_files_def at_most_def)
  qed
  show ?thesis
  proof (cases "?Q = []")
    case True
    with qual have "qualifying_sequencer_files b wid target = []" by simp
    moreover from load_sequencer_last [OF load] True
    have "(inputs, outputs, epoch, t_counter) = (Map.empty, Map.empty, 0, 0)" by simp
    ultimately show ?thesis by simp
  next
    case False
    with qual have ne: "qualifying_sequencer_files b wid target \<noteq> []"
      by (metis image_is_empty set_empty)
    obtain i name where l: "last ?Q = (i, name)" by (cases "last ?Q")
    from load_sequencer_last [OF load] False l obtain p where
      p: "map_of b name = Some p" "as_sequencer p = Inr (inputs, outputs, epoch, t_counter)"
      by auto
    then have rec: "map_of b name = Some (SequencerRecord inputs outputs epoch t_counter)"
      by (cases p) auto
    have lin: "(i, name) \<in> set ?Q" using False l last_in_set by metis
    then have id: "file_snapshot_id name = Some i" using parse_ids_ids [OF ys] by auto
    have mem: "name \<in> set (qualifying_sequencer_files b wid target)"
      using lin qual by force
    have srt: "sorted (map fst ?Q)" by (intro sorted_filter) simp
    have "id_le other name" if "other \<in> set (qualifying_sequencer_files b wid target)" for other
    proof -
      from that qual obtain j where j: "(j, other) \<in> set ?Q" by auto
      then have "file_snapshot_id other = Some j" using parse_ids_ids [OF ys] by auto
      moreover have "j \<le> last (map fst ?Q)"
        using j by (intro sorted_le_last [OF srt]) force
      moreover have "last (map fst ?Q) = i" using False l by (simp add: last_map)
      ultimately show ?thesis using id by (simp add: id_le_def)
    qed
    then have "latest_sequencer_file b wid target name"
      using mem by (simp add: latest_sequencer_file_def list_all_iff)
    with rec ne show ?thesis by auto
  qed
qed

text \<open>
  C3 as stated covers the target \<open>-1\<close> too: no sequencer delta qualifies there (the only
  one has id 0), yet the offsets that come back are \<open>None\<close>, not empty maps.
\<close>

theorem sequencer_recovery_counterexample:
  "qualifying_sequencer_files sequencer_store 3 (- 1) = [] \<and>
   snd (retrieve_snapshot worker3 sequencer_store (- 1) []) = Inr (Map.empty, None, None, 0, 0) \<and>
   snd (retrieve_snapshot worker3 sequencer_store (- 1) [])
     \<noteq> Inr (Map.empty, Some Map.empty, Some Map.empty, 0, 0)"
  by (simp add: retrieve_snapshot_def qualifying_sequencer_files_def at_most_def
      sequencer_store_def recovery_eval string_eval store_eval)

text \<open>
  C3, amended. For every target other than \<open>-1\<close>: when \<open>retrieve_snapshot\<close> returns, its
  offsets, epoch and t-counter are those of one stored sequencer record, whole, and
  that record belongs to a sequencer file of the worker whose id is at most the target
  and is the highest among such files; when no sequencer file qualifies, the offsets
  are empty maps and epoch and t-counter are 0.
\<close>

theorem sequencer_recovery:
  assumes "target \<noteq> - 1"
    and "retrieve_snapshot self b target ops = (self', Inr (data, inputs, outputs, epoch, t_counter))"
  shows "if qualifying_sequencer_files b (worker_id self) target = []
         then inputs = Some Map.empty \<and> outputs = Some Map.empty \<and> epoch = 0 \<and> t_counter = 0
         else \<exists>name i out.
                latest_sequencer_file b (worker_id self) target name \<and>
                map_of b name = Some (SequencerRecord i out epoch t_counter) \<and>
                inputs = Some i \<and> outputs = Some out"
proof -
  from assms obtain i out where
    r: "recover_sequencer b (worker_id self) target = Inr (i, out, epoch, t_counter)"
    and io: "inputs = Some i" "outputs = Some out"
    by (auto simp: retrieve_snapshot_def Let_def split: sum.splits)
  from recover_sequencer_result [OF r] io show ?thesis by (auto split: if_splits)
qed

theorem sequencer_recovery_witness:
  "(0::int) \<noteq> - 1 \<and>
   retrieve_snapshot worker3 sequencer_store 0 [] =
     (worker3\<lparr>snapshot_id := 1\<rparr>,
      Inr (Map.empty, Some [(''p'', 0) \<mapsto> 10], Some [(''p'', 0) \<mapsto> 7], 1, 4)) \<and>
   (\<exists>name. latest_sequencer_file sequencer_store 3 0 name \<and>
      map_of sequencer_store name =
        Some (SequencerRecord [(''p'', 0) \<mapsto> 10] [(''p'', 0) \<mapsto> 7] 1 4))"
proof -
  have r: "retrieve_snapshot worker3 sequencer_store 0 [] =
     (worker3\<lparr>snapshot_id := 1\<rparr>,
      Inr (Map.empty, Some [(''p'', 0) \<mapsto> 10], Some [(''p'', 0) \<mapsto> 7], 1, 4))"
    unfolding retrieve_snapshot_def Let_def worker3_id
    by (simp add: sequencer_store_def recovery_eval string_eval store_eval)
  have q: "qualifying_sequencer_files sequencer_store 3 0 \<noteq> []"
    by (simp add: qualifying_sequencer_files_def at_most_def sequencer_store_def
        recovery_eval string_eval store_eval)
  have w: "worker_id worker3 = 3" by (simp add: worker3_def)
  have t: "(0::int) \<noteq> - 1" by simp
  from sequencer_recovery [OF t r] q w r show ?thesis by auto
qed


section \<open>A partition without qualifying deltas\<close>

lemma parse_ids_total:
  "list_all (\<lambda>name. file_snapshot_id name \<noteq> None) fs \<Longrightarrow> \<exists>xs. parse_ids fs = Inr xs"
  by (induction fs) (auto split: option.splits)

lemma merge_partition_skips:
  "list_all (\<lambda>(i, name). target < i) xs \<Longrightarrow> merge_partition b target opp xs data = Inr data"
  by (induction xs) auto

lemma merge_partition_other:
  "merge_partition b target opp xs data = Inr data' \<Longrightarrow> opp' \<noteq> opp \<Longrightarrow> data' opp' = data opp'"
proof (induction xs arbitrary: data)
  case Nil
  then show ?case by simp
next
  case (Cons x xs)
  obtain i name where x: "x = (i, name)" by (cases x)
  show ?case
  proof (cases "i > target")
    case True
    then show ?thesis using Cons x by simp
  next
    case False
    with Cons.prems(1) x obtain d where
      "merge_partition b target opp xs (data(opp \<mapsto> d)) = Inr data'"
      by (auto split: sum.splits option.splits if_splits)
    from Cons.IH [OF this Cons.prems(2)] Cons.prems(2) show ?thesis by simp
  qed
qed

lemma merge_order_all_newer:
  assumes "list_all (newer_than target) fs"
  shows "\<exists>xs. merge_order fs = Inr xs \<and> list_all (\<lambda>(i, name). target < i) xs"
proof -
  from assms have "list_all (\<lambda>name. file_snapshot_id name \<noteq> None) fs"
    by (auto simp: list_all_iff newer_than_def split: option.splits)
  then obtain ys where ys: "parse_ids fs = Inr ys" using parse_ids_total by blast
  have "target < i" if "(i, name) \<in> set ys" for i name
  proof -
    from that have "file_snapshot_id name = Some i" "name \<in> set fs"
      using parse_ids_ids [OF ys] parse_ids_snd [OF ys] by auto
    with assms show ?thesis by (auto simp: list_all_iff newer_than_def)
  qed
  then have "list_all (\<lambda>(i, name). target < i) (sort_key fst ys)"
    by (auto simp: list_all_iff)
  with ys show ?thesis by (simp add: merge_order_def)
qed

lemma recover_partitions_skips:
  assumes "list_all (newer_than target) (bin_files b (partition_prefix wid opp))"
  shows "recover_partitions b wid target (opp # rest) data = recover_partitions b wid target rest data"
proof -
  from merge_order_all_newer [OF assms] obtain xs where
    "merge_order (bin_files b (partition_prefix wid opp)) = Inr xs"
    "list_all (\<lambda>(i, name). target < i) xs" by blast
  then show ?thesis by (simp add: merge_partition_skips)
qed

lemma recover_partitions_untouched:
  assumes "list_all (newer_than target) (bin_files b (partition_prefix wid opp))"
    and "recover_partitions b wid target ops data = Inr data'"
  shows "data' opp = data opp"
  using assms(2)
proof (induction ops arbitrary: data)
  case Nil
  then show ?case by simp
next
  case (Cons opp' ops)
  show ?case
  proof (cases "opp' = opp")
    case True
    with Cons.prems have "recover_partitions b wid target ops data = Inr data'"
      using recover_partitions_skips [OF assms(1)] by simp
    then show ?thesis by (rule Cons.IH)
  next
    case False
    from Cons.prems obtain xs d where
      m: "merge_partition b target opp' xs data = Inr d"
      and r: "recover_partitions b wid target ops d = Inr data'"
      by (auto split: sum.splits)
    from merge_partition_other [OF m] False have "d opp = data opp" by simp
    with Cons.IH [OF r] show ?thesis by simp
  qed
qed

text \<open>
  C8 as stated asks for an empty state map and rules out omission. Worker 3 owns the
  partition \<open>("payments", 0)\<close>, which has no delta in the store: recovery raises no
  error, and the returned dict has no entry for the partition.
\<close>

theorem partition_without_deltas_counterexample:
  "snd (retrieve_snapshot worker3 orders_store 1 [(''payments'', 0)])
     = Inr (Map.empty, Some Map.empty, Some Map.empty, 0, 0) \<and>
   snd (retrieve_snapshot worker3 orders_store 1 [(''payments'', 0)])
     \<noteq> Inr ([(''payments'', 0) \<mapsto> Map.empty], Some Map.empty, Some Map.empty, 0, 0)"
proof -
  have "(Map.empty :: OperatorPartition \<rightharpoonup> (string, int) KVPairs) \<noteq>
          [(''payments'', 0) \<mapsto> Map.empty]"
    using map_upd_nonempty by metis
  then show ?thesis
    unfolding retrieve_snapshot_def Let_def worker3_id
    by (simp add: orders_store_def recovery_eval string_eval store_eval)
qed

text \<open>
  C8, amended. An owned operator partition with zero qualifying deltas (nothing listed
  under its prefix, or every listed delta has an id above the target) makes recovery
  raise no error: its turn of the loop leaves the recovered dict as it was. When
  \<open>retrieve_snapshot\<close> returns, the dict has no entry for that partition.
\<close>

theorem partition_without_deltas_is_omitted:
  assumes "list_all (newer_than target) (bin_files b (partition_prefix (worker_id self) opp))"
  shows "recover_partitions b (worker_id self) target (opp # rest) data =
           recover_partitions b (worker_id self) target rest data \<and>
         (\<forall>self' data' inputs outputs epoch t_counter.
            retrieve_snapshot self b target ops = (self', Inr (data', inputs, outputs, epoch, t_counter))
            \<longrightarrow> data' opp = None)"
proof (intro conjI allI impI)
  show "recover_partitions b (worker_id self) target (opp # rest) data =
           recover_partitions b (worker_id self) target rest data"
    by (rule recover_partitions_skips [OF assms])
next
  fix self' data' inputs outputs epoch t_counter
  assume r: "retrieve_snapshot self b target ops = (self', Inr (data', inputs, outputs, epoch, t_counter))"
  show "data' opp = None"
  proof (cases "target = - 1")
    case True
    with r show ?thesis by (auto simp: retrieve_snapshot_def)
  next
    case False
    with r have "recover_partitions b (worker_id self) target ops Map.empty = Inr data'"
      by (auto simp: retrieve_snapshot_def Let_def split: sum.splits)
    from recover_partitions_untouched [OF assms this] show ?thesis by simp
  qed
qed

theorem partition_without_deltas_is_omitted_witness:
  "list_all (newer_than 1) (bin_files [last orders_store] (partition_prefix 3 (''orders'', 0))) \<and>
   (case snd (retrieve_snapshot worker3 [last orders_store] 1 [(''orders'', 0)]) of
      Inl e \<Rightarrow> False
    | Inr (data, rest) \<Rightarrow> data (''orders'', 0) = None)"
proof -
  have h: "list_all (newer_than 1)
             (bin_files ([last orders_store] :: (string, int) bucket)
                (partition_prefix (worker_id worker3) (''orders'', 0)))"
    by (simp add: worker3_def orders_store_def newer_than_def recovery_eval string_eval store_eval)
  obtain self' data inputs outputs epoch t_counter where
    r: "retrieve_snapshot worker3 [last orders_store] 1 [(''orders'', 0)] =
          (self', Inr (data, inputs, outputs, epoch, t_counter))"
    unfolding retrieve_snapshot_def Let_def worker3_id
    by (simp add: orders_store_def recovery_eval string_eval store_eval)
  from partition_without_deltas_is_omitted [OF h, of "[]" Map.empty "[(''orders'', 0)]"] r
  have "data (''orders'', 0) = None" by blast
  with r h show ?thesis by (simp add: worker3_def)
qed


section \<open>Names that do not parse\<close>

lemma parse_snapshot_file_not_addressed: "\<not> addressed name \<Longrightarrow> parse_snapshot_file name = Inr None"
  by (auto simp: addressed_def parse_snapshot_file_def Let_def)

lemma parse_snapshot_file_error: "parse_snapshot_file name = Inl e \<Longrightarrow> e = ValueError"
  by (auto simp: parse_snapshot_file_def Let_def split: if_splits option.splits)

lemma parse_snapshot_file_malformed:
  "addressed name \<Longrightarrow> non_integer_field name \<Longrightarrow> parse_snapshot_file name = Inl ValueError"
  by (auto simp: addressed_def non_integer_field_def parse_snapshot_file_def Let_def
           split: option.splits)

lemma collect_snapshots_addressed:
  "collect_snapshots (filter addressed files) m spw = collect_snapshots files m spw"
  by (induction files arbitrary: spw)
     (auto simp: parse_snapshot_file_not_addressed split: sum.splits option.splits)

lemma collect_snapshots_error: "collect_snapshots files m spw = Inl e \<Longrightarrow> e = ValueError"
  by (induction files arbitrary: spw)
     (auto split: sum.splits option.splits if_splits dest: parse_snapshot_file_error)

lemma collect_snapshots_raises:
  "name \<in> set files \<Longrightarrow> parse_snapshot_file name = Inl e \<Longrightarrow>
   collect_snapshots files m spw = Inl ValueError"
proof (induction files arbitrary: spw)
  case Nil
  then show ?case by simp
next
  case (Cons f files)
  show ?case
  proof (cases "parse_snapshot_file f")
    case (Inl e')
    then show ?thesis by (simp add: parse_snapshot_file_error)
  next
    case (Inr r)
    with Cons.prems have "name \<in> set files" by auto
    from Cons.IH [OF this Cons.prems(2)] Inr show ?thesis
      by (auto split: option.splits)
  qed
qed

lemma parse_ids_raises:
  "name \<in> set fs \<Longrightarrow> file_snapshot_id name = None \<Longrightarrow> parse_ids fs = Inl ValueError"
  by (induction fs) (auto split: option.splits sum.splits dest: parse_ids_error)

lemma recover_partitions_raises:
  assumes "opp \<in> set ops" and "name \<in> set (bin_files b (partition_prefix wid opp))"
    and "file_snapshot_id name = None"
  shows "\<exists>e. recover_partitions b wid target ops data = Inl e"
  using assms(1)
proof (induction ops arbitrary: data)
  case Nil
  then show ?case by simp
next
  case (Cons opp' ops)
  have m: "merge_order (bin_files b (partition_prefix wid opp)) = Inl ValueError"
    using parse_ids_raises [OF assms(2,3)] by (simp add: merge_order_def)
  show ?case
  proof (cases "opp' = opp")
    case True
    with m show ?thesis by simp
  next
    case False
    with Cons.prems have "opp \<in> set ops" by simp
    from Cons.IH [OF this] show ?thesis
      by (auto split: sum.splits)
  qed
qed

text \<open>
  C7 as stated promises that a name with a non-integer field is skipped without an
  error. The store holds one delta named \<open>tmp.bin\<close> under the partition of worker 3:
  the compactor raises \<open>ValueError\<close> and so does recovery.
\<close>

theorem malformed_keys_counterexample:
  "start_uncoordinated_snapshot_compaction stray_store 5 = (stray_store, Some ValueError) \<and>
   snd (retrieve_snapshot worker3 stray_store 5 [(''orders'', 0)]) = Inl ValueError"
proof -
  have "start_uncoordinated_snapshot_compaction stray_store 5 = (stray_store, Some ValueError)"
    by (simp add: stray_store_def compactor_eval string_eval store_eval)
  moreover have "snd (retrieve_snapshot worker3 stray_store 5 [(''orders'', 0)]) = Inl ValueError"
    unfolding retrieve_snapshot_def Let_def worker3_id
    by (simp add: stray_store_def recovery_eval string_eval store_eval)
  ultimately show ?thesis by simp
qed

text \<open>
  C7, amended. A listed name without the namespace prefix or with fewer than five path
  segments is left out of the compactor's groups and raises nothing: the compactor does
  what it does without that name. A listed name with the prefix and five segments whose
  worker id, partition or snapshot id is not an integer makes the compactor raise
  \<open>ValueError\<close> before it changes the store. A file listed for an owned partition whose
  snapshot id is not an integer makes recovery raise.
\<close>

theorem malformed_keys:
  "compact_uncoordinated_deltas b (filter addressed files) m = compact_uncoordinated_deltas b files m \<and>
   (name \<in> set files \<and> addressed name \<and> non_integer_field name \<longrightarrow>
      compact_uncoordinated_deltas b files m = (b, Some ValueError)) \<and>
   (target \<noteq> - 1 \<and> opp \<in> set ops \<and>
    name \<in> set (bin_files b (partition_prefix (worker_id self) opp)) \<and>
    file_snapshot_id name = None \<longrightarrow>
      (\<exists>e. snd (retrieve_snapshot self b target ops) = Inl e))"
proof (intro conjI impI)
  show "compact_uncoordinated_deltas b (filter addressed files) m = compact_uncoordinated_deltas b files m"
    by (simp add: compact_uncoordinated_deltas_def get_uncoordinated_snapshots_per_worker_def
        collect_snapshots_addressed)
next
  assume "name \<in> set files \<and> addressed name \<and> non_integer_field name"
  then have "collect_snapshots files m [] = Inl ValueError"
    using collect_snapshots_raises parse_snapshot_file_malformed by blast
  then show "compact_uncoordinated_deltas b files m = (b, Some ValueError)"
    by (simp add: compact_uncoordinated_deltas_def get_uncoordinated_snapshots_per_worker_def)
next
  assume a: "target \<noteq> - 1 \<and> opp \<in> set ops \<and>
    name \<in> set (bin_files b (partition_prefix (worker_id self) opp)) \<and>
    file_snapshot_id name = None"
  then obtain e where
    "recover_partitions b (worker_id self) target ops Map.empty = Inl e"
    using recover_partitions_raises by blast
  with a show "\<exists>e. snd (retrieve_snapshot self b target ops) = Inl e"
    by (simp add: retrieve_snapshot_def Let_def)
qed

theorem malformed_keys_witness:
  "\<not> addressed ''uncoordinated/3/sequencer/0.bin'' \<and>
   compact_uncoordinated_deltas orders_store
     [''uncoordinated/3/orders/0/1.bin'', ''uncoordinated/3/orders/0/2.bin''] 2 =
   compact_uncoordinated_deltas orders_store
     [''uncoordinated/3/sequencer/0.bin'', ''uncoordinated/3/orders/0/1.bin'',
      ''uncoordinated/3/orders/0/2.bin''] 2 \<and>
   addressed ''uncoordinated/3/orders/0/tmp.bin'' \<and>
   non_integer_field ''uncoordinated/3/orders/0/tmp.bin'' \<and>
   compact_uncoordinated_deltas stray_store [''uncoordinated/3/orders/0/tmp.bin''] 5 =
     (stray_store, Some ValueError) \<and>
   (\<exists>e. snd (retrieve_snapshot worker3 stray_store 5 [(''orders'', 0)]) = Inl e)"
proof -
  let ?seq = "''uncoordinated/3/sequencer/0.bin''"
  let ?tmp = "''uncoordinated/3/orders/0/tmp.bin''"
  let ?files = "[?seq, ''uncoordinated/3/orders/0/1.bin'', ''uncoordinated/3/orders/0/2.bin'']"
  have a1: "\<not> addressed ?seq" by (simp add: addressed_def string_eval)
  have a2: "addressed ''uncoordinated/3/orders/0/1.bin''" "addressed ''uncoordinated/3/orders/0/2.bin''"
    by (simp_all add: addressed_def string_eval)
  have f: "filter addressed ?files = [''uncoordinated/3/orders/0/1.bin'', ''uncoordinated/3/orders/0/2.bin'']"
    using a1 a2 by simp
  have a3: "addressed ?tmp" by (simp add: addressed_def string_eval)
  have n3: "non_integer_field ?tmp" by (simp add: non_integer_field_def string_eval)
  have l: "?tmp \<in> set (bin_files stray_store (partition_prefix (worker_id worker3) (''orders'', 0)))"
    by (simp add: worker3_def stray_store_def recovery_eval string_eval store_eval)
  have i: "file_snapshot_id ?tmp = None" by (simp add: file_snapshot_id_def string_eval)
  note m1 = malformed_keys [of orders_store ?files 2 ?tmp 5 "(''orders'', 0)" "[(''orders'', 0)]" worker3]
  note m2 = malformed_keys [of stray_store "[?tmp]" 5 ?tmp 5 "(''orders'', 0)" "[(''orders'', 0)]" worker3]
  from m1 f have c1: "compact_uncoordinated_deltas orders_store
     [''uncoordinated/3/orders/0/1.bin'', ''uncoordinated/3/orders/0/2.bin''] 2 =
     compact_uncoordinated_deltas orders_store ?files 2" by simp
  from m2 a3 n3 have c2: "compact_uncoordinated_deltas stray_store [?tmp] 5 = (stray_store, Some ValueError)"
    by simp
  from m2 l i have c3: "\<exists>e. snd (retrieve_snapshot worker3 stray_store 5 [(''orders'', 0)]) = Inl e"
    by simp
  from a1 c1 a3 n3 c2 c3 show ?thesis by blast
qed


section \<open>The groups of the compactor\<close>

lemma set_update_subset: "set (AList.update k v al) \<subseteq> insert (k, v) (set al)"
  by (induction al) auto

lemma wf_spw_append_snapshot: "wf_spw spw \<Longrightarrow> wf_spw (append_snapshot wid opp e spw)"
proof -
  assume wf: "wf_spw spw"
  let ?ws = "case map_of spw wid of None \<Rightarrow> [] | Some ws \<Rightarrow> ws"
  let ?sns = "case map_of ?ws opp of None \<Rightarrow> [] | Some sns \<Rightarrow> sns"
  have d: "distinct (map fst ?ws)"
  proof (cases "map_of spw wid")
    case None
    then show ?thesis by simp
  next
    case (Some ws)
    then have "(wid, ws) \<in> set spw" by (rule map_of_SomeD)
    with wf Some show ?thesis by (auto simp: wf_spw_def list_all_iff)
  qed
  have "distinct (map fst (AList.update opp (?sns @ [e]) ?ws))"
    using d by (rule distinct_update)
  moreover have "distinct (map fst (AList.update wid (AList.update opp (?sns @ [e]) ?ws) spw))"
    using wf by (simp add: wf_spw_def distinct_update)
  moreover have "set (AList.update wid (AList.update opp (?sns @ [e]) ?ws) spw)
      \<subseteq> insert (wid, AList.update opp (?sns @ [e]) ?ws) (set spw)"
    by (rule set_update_subset)
  ultimately show ?thesis
    using wf unfolding wf_spw_def append_snapshot_def Let_def list_all_iff by fastforce
qed

lemma group_of_append_snapshot:
  "group_of (append_snapshot wid opp e spw) wid' opp' =
     (if wid' = wid \<and> opp' = opp then group_of spw wid opp @ [e] else group_of spw wid' opp')"
  by (auto simp: group_of_def append_snapshot_def Let_def update_conv' split: option.splits)

lemma collect_snapshots_Cons:
  assumes "collect_snapshots (f # files) m spw = Inr spw'"
  shows "collect_snapshots files m spw = Inr spw' \<or>
         (\<exists>w opp e. collect_snapshots files m (append_snapshot w opp e spw) = Inr spw')"
proof (cases "parse_snapshot_file f")
  case (Inl e)
  with assms show ?thesis by simp
next
  case (Inr r)
  show ?thesis
  proof (cases r)
    case None
    with Inr assms show ?thesis by simp
  next
    case (Some t)
    obtain w opp i where "t = (w, opp, i)" by (cases t)
    with Some Inr assms have
      "i \<le> m \<Longrightarrow> collect_snapshots files m (append_snapshot w opp (i, f) spw) = Inr spw'"
      "\<not> i \<le> m \<Longrightarrow> collect_snapshots files m spw = Inr spw'"
      by simp_all
    then show ?thesis by blast
  qed
qed

lemma wf_spw_collect:
  "collect_snapshots files m spw = Inr spw' \<Longrightarrow> wf_spw spw \<Longrightarrow> wf_spw spw'"
proof (induction files arbitrary: spw)
  case Nil
  then show ?case by simp
next
  case (Cons f files)
  from collect_snapshots_Cons [OF Cons.prems(1)] show ?case
  proof
    assume "collect_snapshots files m spw = Inr spw'"
    then show ?thesis using Cons.prems(2) by (rule Cons.IH)
  next
    assume "\<exists>w opp e. collect_snapshots files m (append_snapshot w opp e spw) = Inr spw'"
    then obtain w opp e where "collect_snapshots files m (append_snapshot w opp e spw) = Inr spw'"
      by blast
    then show ?thesis using wf_spw_append_snapshot [OF Cons.prems(2)] by (rule Cons.IH)
  qed
qed

lemma group_of_collect:
  "collect_snapshots files m spw = Inr spw' \<Longrightarrow>
   group_of spw' wid opp = group_of spw wid opp @ group_entries m wid opp files"
proof (induction files arbitrary: spw)
  case Nil
  then show ?case by (simp add: group_entries_def)
next
  case (Cons f files)
  show ?case
  proof (cases "parse_snapshot_file f")
    case (Inl e)
    with Cons.prems show ?thesis by simp
  next
    case (Inr r)
    show ?thesis
    proof (cases r)
      case None
      with Inr Cons show ?thesis
        by (simp add: group_entries_def file_entry_def)
    next
      case (Some t)
      obtain w' o' i where t: "t = (w', o', i)" by (cases t)
      show ?thesis
      proof (cases "i \<le> m")
        case True
        with Cons.prems Inr Some t have
          "collect_snapshots files m (append_snapshot w' o' (i, f) spw) = Inr spw'" by simp
        from Cons.IH [OF this] True Inr Some t show ?thesis
          by (auto simp: group_of_append_snapshot group_entries_def file_entry_def)
      next
        case False
        with Cons Inr Some t show ?thesis
          by (simp add: group_entries_def file_entry_def)
      qed
    qed
  qed
qed

lemma wf_spw_sort: "wf_spw spw \<Longrightarrow> wf_spw (sort_snapshots spw)"
proof -
  have 1: "map fst (sort_snapshots spw) = map fst spw"
    by (induction spw) (auto simp: sort_snapshots_def)
  have 2: "map (fst \<circ> (\<lambda>(opp, sns). (opp, sort_key fst sns))) ws = map fst ws"
    for ws :: worker_snapshots by (induction ws) auto
  assume "wf_spw spw"
  then show ?thesis
    unfolding wf_spw_def 1 by (auto simp: list_all_iff sort_snapshots_def 2)
qed

lemma map_of_map_value:
  "map_of (map (\<lambda>(k, v). (k, f v)) al) k = map_option f (map_of al k)"
  by (induction al) auto

lemma group_of_sort: "group_of (sort_snapshots spw) wid opp = sort_key fst (group_of spw wid opp)"
  by (simp add: group_of_def sort_snapshots_def map_of_map_value split: option.splits)

lemma group_of_member:
  assumes "wf_spw spw" "(wid, ws) \<in> set spw" "(opp, sns) \<in> set ws"
  shows "group_of spw wid opp = sns"
proof -
  from assms(1,2) have "map_of spw wid = Some ws" "distinct (map fst ws)"
    by (auto simp: wf_spw_def list_all_iff)
  with assms(3) show ?thesis by (simp add: group_of_def)
qed

lemma group_of_nonempty:
  assumes "group_of spw wid opp \<noteq> []"
  shows "\<exists>ws. (wid, ws) \<in> set spw \<and> (opp, group_of spw wid opp) \<in> set ws"
  using assms by (auto simp: group_of_def split: option.splits dest: map_of_SomeD)

text \<open>The groups that \<open>get_uncoordinated_snapshots_per_worker\<close> returns.\<close>

lemma groups_of_listing:
  assumes "get_uncoordinated_snapshots_per_worker files m = Inr spw"
  shows "wf_spw spw" and "group_of spw wid opp = sort_key fst (group_entries m wid opp files)"
proof -
  from assms obtain spw0 where c: "collect_snapshots files m [] = Inr spw0"
    and s: "spw = sort_snapshots spw0"
    by (auto simp: get_uncoordinated_snapshots_per_worker_def split: sum.splits)
  have "wf_spw []" by (simp add: wf_spw_def)
  with c have "wf_spw spw0" by (rule wf_spw_collect)
  then show "wf_spw spw" using s by (simp add: wf_spw_sort)
  from group_of_collect [OF c] have "group_of spw0 wid opp = group_entries m wid opp files"
    by (simp add: group_of_def)
  then show "group_of spw wid opp = sort_key fst (group_entries m wid opp files)"
    using s by (simp add: group_of_sort)
qed

lemma group_entries_mem:
  "(i, name) \<in> set (group_entries m wid opp files) \<longleftrightarrow>
     name \<in> set files \<and> parse_snapshot_file name = Inr (Some (wid, opp, i)) \<and> i \<le> m"
proof (induction files)
  case Nil
  then show ?case by (simp add: group_entries_def)
next
  case (Cons f files)
  then show ?case
    unfolding group_entries_def List.map_filter_simps file_entry_def
    by (auto split: sum.splits option.splits if_splits)
qed


section \<open>What the compactor does to the store\<close>

lemma keys_put_object: "fst ` set (put_object b key p) = insert key (fst ` set b)"
  by (simp add: put_object_def dom_update)

lemma keys_remove_object: "fst ` set (remove_object b key) = fst ` set b - {key}"
proof -
  have "set (map fst (remove_object b key)) = set (map fst b) - {key}"
    unfolding remove_object_def delete_keys by simp
  then show ?thesis by simp
qed

lemma distinct_put_object: "distinct (map fst b) \<Longrightarrow> distinct (map fst (put_object b key p))"
  by (simp add: put_object_def distinct_update)

lemma distinct_remove_object: "distinct (map fst b) \<Longrightarrow> distinct (map fst (remove_object b key))"
  by (simp add: remove_object_def distinct_delete)

lemma short_objects_put_object:
  "\<not> short_key key \<Longrightarrow> short_objects (put_object b key p) = short_objects b"
  by (induction b) (auto simp: short_objects_def put_object_def)

lemma short_objects_remove_object:
  "\<not> short_key key \<Longrightarrow> short_objects (remove_object b key) = short_objects b"
  by (induction b) (auto simp: short_objects_def remove_object_def)

lemma keys_cleanup:
  "fst ` set (cleanup_compacted_files b [] files) = fst ` set b - set files"
  unfolding cleanup_compacted_files_def
  by (induction files arbitrary: b) (auto simp: keys_remove_object)

lemma distinct_cleanup:
  "distinct (map fst b) \<Longrightarrow> distinct (map fst (cleanup_compacted_files b [] files))"
  unfolding cleanup_compacted_files_def
  by (induction files arbitrary: b) (auto simp: distinct_remove_object)

lemma short_objects_cleanup:
  "list_all (\<lambda>name. \<not> short_key name) files \<Longrightarrow>
   short_objects (cleanup_compacted_files b [] files) = short_objects b"
  unfolding cleanup_compacted_files_def
  by (induction files arbitrary: b) (auto simp: short_objects_remove_object)

lemma merged_snapshot_path_long: "\<not> short_key (merged_snapshot_path wid opp)"
  using segments_merged_snapshot_path [of wid opp] by (simp add: short_key_def)

subsection \<open>The groups of one worker\<close>

lemma compact_partitions_short:
  "compact_partitions wid ws b td = (b', r) \<Longrightarrow> short_objects b' = short_objects b"
proof (induction ws arbitrary: b td)
  case Nil
  then show ?case by simp
next
  case (Cons g ws)
  obtain opp sns where g: "g = (opp, sns)" by (cases g)
  show ?case
  proof (cases "length sns \<le> 1")
    case True
    with Cons g show ?thesis by simp
  next
    case False
    show ?thesis
    proof (cases "merge_snapshots b sns Map.empty")
      case (Inl e)
      with Cons.prems g False show ?thesis by simp
    next
      case (Inr data)
      let ?b = "if data \<noteq> Map.empty
                then put_object b (merged_snapshot_path wid opp) (StateDelta data) else b"
      from Cons.prems g False Inr have
        "compact_partitions wid ws ?b (td @ map snd sns) = (b', r)" by simp
      from Cons.IH [OF this] show ?thesis
        by (simp add: short_objects_put_object merged_snapshot_path_long split: if_splits)
    qed
  qed
qed

lemma compact_partitions_keys:
  "compact_partitions wid ws b td = (b', r) \<Longrightarrow> key \<in> fst ` set b' \<Longrightarrow>
   key \<in> fst ` set b \<or>
   (\<exists>opp sns. (opp, sns) \<in> set ws \<and> 1 < length sns \<and> key = merged_snapshot_path wid opp)"
proof (induction ws arbitrary: b td)
  case Nil
  then show ?case by simp
next
  case (Cons g ws)
  obtain opp sns where g: "g = (opp, sns)" by (cases g)
  show ?case
  proof (cases "length sns \<le> 1")
    case True
    with Cons.prems g have "compact_partitions wid ws b td = (b', r)" by simp
    from Cons.IH [OF this Cons.prems(2)] show ?thesis by auto
  next
    case False
    then have big: "1 < length sns" by simp
    show ?thesis
    proof (cases "merge_snapshots b sns Map.empty")
      case (Inl e)
      with Cons.prems g False show ?thesis by simp
    next
      case (Inr data)
      let ?b = "if data \<noteq> Map.empty
                then put_object b (merged_snapshot_path wid opp) (StateDelta data) else b"
      from Cons.prems g False Inr have
        "compact_partitions wid ws ?b (td @ map snd sns) = (b', r)" by simp
      from Cons.IH [OF this Cons.prems(2)] have
        "key \<in> fst ` set ?b \<or>
         (\<exists>opp sns. (opp, sns) \<in> set ws \<and> 1 < length sns \<and> key = merged_snapshot_path wid opp)" .
      moreover have "key \<in> fst ` set ?b \<Longrightarrow>
          key \<in> fst ` set b \<or> key = merged_snapshot_path wid opp"
        by (auto simp: keys_put_object split: if_splits)
      moreover have "(opp, sns) \<in> set (g # ws)" using g by simp
      moreover have "set ws \<subseteq> set (g # ws)" by auto
      ultimately show ?thesis using big by blast
    qed
  qed
qed

lemma compact_partitions_distinct:
  "compact_partitions wid ws b td = (b', r) \<Longrightarrow> distinct (map fst b) \<Longrightarrow> distinct (map fst b')"
proof (induction ws arbitrary: b td)
  case Nil
  then show ?case by simp
next
  case (Cons g ws)
  obtain opp sns where g: "g = (opp, sns)" by (cases g)
  show ?case
  proof (cases "length sns \<le> 1")
    case True
    with Cons g show ?thesis by simp
  next
    case False
    show ?thesis
    proof (cases "merge_snapshots b sns Map.empty")
      case (Inl e)
      with Cons.prems g False show ?thesis by simp
    next
      case (Inr data)
      let ?b = "if data \<noteq> Map.empty
                then put_object b (merged_snapshot_path wid opp) (StateDelta data) else b"
      from Cons.prems g False Inr have
        "compact_partitions wid ws ?b (td @ map snd sns) = (b', r)" by simp
      moreover have "distinct (map fst ?b)" using Cons.prems(2) by (simp add: distinct_put_object)
      ultimately show ?thesis by (rule Cons.IH)
    qed
  qed
qed

lemma compact_partitions_to_delete:
  "compact_partitions wid ws b td = (b', Inr td') \<Longrightarrow>
   name \<in> set td' \<longleftrightarrow>
     name \<in> set td \<or>
     (\<exists>opp sns i. (opp, sns) \<in> set ws \<and> 1 < length sns \<and> (i, name) \<in> set sns)"
proof (induction ws arbitrary: b td)
  case Nil
  then show ?case by auto
next
  case (Cons g ws)
  obtain opp sns where g: "g = (opp, sns)" by (cases g)
  have mem: "\<And>p s. (p, s) \<in> set (g # ws) \<longleftrightarrow> (p = opp \<and> s = sns) \<or> (p, s) \<in> set ws"
    using g by auto
  show ?case
  proof (cases "length sns \<le> 1")
    case True
    with Cons.prems g have "compact_partitions wid ws b td = (b', Inr td')" by simp
    from Cons.IH [OF this] have
      "name \<in> set td' \<longleftrightarrow> name \<in> set td \<or>
         (\<exists>opp sns i. (opp, sns) \<in> set ws \<and> 1 < length sns \<and> (i, name) \<in> set sns)" .
    moreover have "\<not> 1 < length sns" using True by simp
    ultimately show ?thesis unfolding mem by blast
  next
    case False
    then have big: "1 < length sns" by simp
    show ?thesis
    proof (cases "merge_snapshots b sns Map.empty")
      case (Inl e)
      with Cons.prems g False show ?thesis by simp
    next
      case (Inr data)
      let ?b = "if data \<noteq> Map.empty
                then put_object b (merged_snapshot_path wid opp) (StateDelta data) else b"
      from Cons.prems g False Inr have
        "compact_partitions wid ws ?b (td @ map snd sns) = (b', Inr td')" by simp
      from Cons.IH [OF this] have
        "name \<in> set td' \<longleftrightarrow> name \<in> set (td @ map snd sns) \<or>
         (\<exists>opp sns i. (opp, sns) \<in> set ws \<and> 1 < length sns \<and> (i, name) \<in> set sns)" .
      moreover have "name \<in> set (td @ map snd sns) \<longleftrightarrow>
          name \<in> set td \<or> (\<exists>i. (i, name) \<in> set sns)" by force
      ultimately show ?thesis unfolding mem using big by blast
    qed
  qed
qed

lemma compact_partitions_small:
  "list_all (\<lambda>(opp, sns). length sns \<le> 1) ws \<Longrightarrow> compact_partitions wid ws b td = (b, Inr td)"
  by (induction ws) auto

subsection \<open>All workers\<close>

lemma compact_workers_short:
  "compact_workers spw b td = (b', r) \<Longrightarrow> short_objects b' = short_objects b"
proof (induction spw arbitrary: b td)
  case Nil
  then show ?case by simp
next
  case (Cons g spw)
  obtain wid ws where g: "g = (wid, ws)" by (cases g)
  obtain b1 r1 where p: "compact_partitions wid ws b td = (b1, r1)"
    by (cases "compact_partitions wid ws b td")
  have s: "short_objects b1 = short_objects b" using p by (rule compact_partitions_short)
  show ?case
  proof (cases r1)
    case (Inl e)
    with Cons.prems g p s show ?thesis by simp
  next
    case (Inr td1)
    with Cons.prems g p have "compact_workers spw b1 td1 = (b', r)" by simp
    from Cons.IH [OF this] s show ?thesis by simp
  qed
qed

lemma compact_workers_keys:
  "compact_workers spw b td = (b', r) \<Longrightarrow> key \<in> fst ` set b' \<Longrightarrow>
   key \<in> fst ` set b \<or>
   (\<exists>wid ws opp sns. (wid, ws) \<in> set spw \<and> (opp, sns) \<in> set ws \<and> 1 < length sns \<and>
      key = merged_snapshot_path wid opp)"
proof (induction spw arbitrary: b td)
  case Nil
  then show ?case by simp
next
  case (Cons g spw)
  obtain wid ws where g: "g = (wid, ws)" by (cases g)
  obtain b1 r1 where p: "compact_partitions wid ws b td = (b1, r1)"
    by (cases "compact_partitions wid ws b td")
  have k: "key \<in> fst ` set b1 \<Longrightarrow> key \<in> fst ` set b \<or>
     (\<exists>opp sns. (opp, sns) \<in> set ws \<and> 1 < length sns \<and> key = merged_snapshot_path wid opp)"
    by (rule compact_partitions_keys [OF p])
  have hd: "(wid, ws) \<in> set (g # spw)" using g by simp
  have tl: "set spw \<subseteq> set (g # spw)" by auto
  show ?case
  proof (cases r1)
    case (Inl e)
    with Cons.prems g p have "b' = b1" by simp
    with k Cons.prems(2) hd show ?thesis by blast
  next
    case (Inr td1)
    with Cons.prems g p have "compact_workers spw b1 td1 = (b', r)" by simp
    from Cons.IH [OF this Cons.prems(2)] have
      "key \<in> fst ` set b1 \<or>
       (\<exists>wid ws opp sns. (wid, ws) \<in> set spw \<and> (opp, sns) \<in> set ws \<and> 1 < length sns \<and>
          key = merged_snapshot_path wid opp)" .
    with k hd tl show ?thesis by blast
  qed
qed

lemma compact_workers_distinct:
  "compact_workers spw b td = (b', r) \<Longrightarrow> distinct (map fst b) \<Longrightarrow> distinct (map fst b')"
proof (induction spw arbitrary: b td)
  case Nil
  then show ?case by simp
next
  case (Cons g spw)
  obtain wid ws where g: "g = (wid, ws)" by (cases g)
  obtain b1 r1 where p: "compact_partitions wid ws b td = (b1, r1)"
    by (cases "compact_partitions wid ws b td")
  have d: "distinct (map fst b1)" using p Cons.prems(2) by (rule compact_partitions_distinct)
  show ?case
  proof (cases r1)
    case (Inl e)
    with Cons.prems g p d show ?thesis by simp
  next
    case (Inr td1)
    with Cons.prems g p have "compact_workers spw b1 td1 = (b', r)" by simp
    then show ?thesis using d by (rule Cons.IH)
  qed
qed

lemma compact_workers_to_delete:
  "compact_workers spw b td = (b', Inr td') \<Longrightarrow>
   name \<in> set td' \<longleftrightarrow>
     name \<in> set td \<or>
     (\<exists>wid ws opp sns i. (wid, ws) \<in> set spw \<and> (opp, sns) \<in> set ws \<and> 1 < length sns \<and>
        (i, name) \<in> set sns)"
proof (induction spw arbitrary: b td)
  case Nil
  then show ?case by auto
next
  case (Cons g spw)
  obtain wid ws where g: "g = (wid, ws)" by (cases g)
  obtain b1 r1 where p: "compact_partitions wid ws b td = (b1, r1)"
    by (cases "compact_partitions wid ws b td")
  have mem: "\<And>w s. (w, s) \<in> set (g # spw) \<longleftrightarrow> (w = wid \<and> s = ws) \<or> (w, s) \<in> set spw"
    using g by auto
  show ?case
  proof (cases r1)
    case (Inl e)
    with Cons.prems g p show ?thesis by simp
  next
    case (Inr td1)
    with Cons.prems g p have w: "compact_workers spw b1 td1 = (b', Inr td')" by simp
    from p Inr have "name \<in> set td1 \<longleftrightarrow> name \<in> set td \<or>
      (\<exists>opp sns i. (opp, sns) \<in> set ws \<and> 1 < length sns \<and> (i, name) \<in> set sns)"
      by (simp add: compact_partitions_to_delete)
    moreover from Cons.IH [OF w] have "name \<in> set td' \<longleftrightarrow> name \<in> set td1 \<or>
     (\<exists>wid ws opp sns i. (wid, ws) \<in> set spw \<and> (opp, sns) \<in> set ws \<and> 1 < length sns \<and>
        (i, name) \<in> set sns)" .
    ultimately show ?thesis unfolding mem by blast
  qed
qed

lemma compact_workers_small:
  "groups_small spw \<Longrightarrow> compact_workers spw b td = (b, Inr td)"
  by (induction spw) (auto simp: groups_small_def compact_partitions_small)


section \<open>Compaction and the sequencer records\<close>

lemma grouped_files_mem:
  "name \<in> set (grouped_files spw) \<longleftrightarrow>
     (\<exists>wid ws opp sns i. (wid, ws) \<in> set spw \<and> (opp, sns) \<in> set ws \<and> (i, name) \<in> set sns)"
  unfolding grouped_files_def by force

lemma grouped_entry:
  assumes "get_uncoordinated_snapshots_per_worker files m = Inr spw"
    and "(wid, ws) \<in> set spw" and "(opp, sns) \<in> set ws" and "(i, name) \<in> set sns"
  shows "name \<in> set files" and "parse_snapshot_file name = Inr (Some (wid, opp, i))" and "i \<le> m"
proof -
  from groups_of_listing [OF assms(1)] assms(2,3)
  have "sns = sort_key fst (group_entries m wid opp files)"
    using group_of_member by metis
  with assms(4) have "(i, name) \<in> set (group_entries m wid opp files)" by simp
  then show "name \<in> set files" and "parse_snapshot_file name = Inr (Some (wid, opp, i))" and "i \<le> m"
    by (simp_all add: group_entries_mem)
qed

lemma grouped_files_long:
  assumes "get_uncoordinated_snapshots_per_worker files m = Inr spw"
    and "name \<in> set (grouped_files spw)"
  shows "\<not> short_key name"
proof -
  from assms(2) obtain wid ws opp sns i where
    "(wid, ws) \<in> set spw" "(opp, sns) \<in> set ws" "(i, name) \<in> set sns"
    unfolding grouped_files_mem by blast
  from grouped_entry(2) [OF assms(1) this] obtain op p where
    "parse_snapshot_file name = Inr (Some (wid, (op, p), i))" by (cases opp) auto
  from parse_snapshot_file_Some(2) [OF this] show ?thesis by (simp add: short_key_def)
qed

lemma map_of_short_objects: "short_key name \<Longrightarrow> map_of (short_objects b) name = map_of b name"
  by (induction b) (auto simp: short_objects_def)

lemma short_sequencer_path: "short_key (get_sequencer_path self sn_id)"
  by (simp add: short_key_def segments_sequencer_path)

lemma compact_uncoordinated_deltas_short:
  "short_objects (fst (compact_uncoordinated_deltas b files m)) = short_objects b"
proof (cases "get_uncoordinated_snapshots_per_worker files m")
  case (Inl e)
  then show ?thesis by (simp add: compact_uncoordinated_deltas_def)
next
  case (Inr spw)
  obtain b' r where w: "compact_workers spw b [] = (b', r)"
    by (cases "compact_workers spw b []")
  have s: "short_objects b' = short_objects b" using w by (rule compact_workers_short)
  show ?thesis
  proof (cases r)
    case (Inl e)
    with Inr w s show ?thesis by (simp add: compact_uncoordinated_deltas_def)
  next
    case td: (Inr td)
    have "\<not> short_key name" if "name \<in> set td" for name
    proof -
      from w td have "compact_workers spw b [] = (b', Inr td)" by simp
      from compact_workers_to_delete [OF this, of name] that
      have "name \<in> set (grouped_files spw)"
        unfolding grouped_files_mem by simp blast
      then show ?thesis using Inr grouped_files_long by blast
    qed
    then have "list_all (\<lambda>name. \<not> short_key name) td" by (simp add: list_all_iff)
    then have "short_objects (cleanup_compacted_files b' [] td) = short_objects b'"
      by (rule short_objects_cleanup)
    with Inr w td s show ?thesis by (simp add: compact_uncoordinated_deltas_def)
  qed
qed

text \<open>
  C9. A sequencer name has four path segments, so it is short. Whatever the listing and
  the bound, and whether or not the run ends in an exception, compaction leaves the
  objects under short names as they were, in content and in order; in particular the
  object under every sequencer name is the one that was there before. No group holds a
  sequencer name.
\<close>

theorem compaction_leaves_sequencer_records:
  "short_key (get_sequencer_path self sn_id) \<and>
   short_objects (fst (compact_uncoordinated_deltas b files m)) = short_objects b \<and>
   map_of (fst (compact_uncoordinated_deltas b files m)) (get_sequencer_path self sn_id) =
     map_of b (get_sequencer_path self sn_id) \<and>
   (\<forall>spw. get_uncoordinated_snapshots_per_worker files m = Inr spw \<longrightarrow>
      get_sequencer_path self sn_id \<notin> set (grouped_files spw))"
proof (intro conjI allI impI)
  show "short_key (get_sequencer_path self sn_id)" by (rule short_sequencer_path)
  show "short_objects (fst (compact_uncoordinated_deltas b files m)) = short_objects b"
    by (rule compact_uncoordinated_deltas_short)
  have "map_of (fst (compact_uncoordinated_deltas b files m)) (get_sequencer_path self sn_id) =
        map_of (short_objects (fst (compact_uncoordinated_deltas b files m))) (get_sequencer_path self sn_id)"
    by (simp add: map_of_short_objects short_sequencer_path)
  also have "\<dots> = map_of (short_objects b) (get_sequencer_path self sn_id)"
    by (simp add: compact_uncoordinated_deltas_short)
  also have "\<dots> = map_of b (get_sequencer_path self sn_id)"
    by (simp add: map_of_short_objects short_sequencer_path)
  finally show "map_of (fst (compact_uncoordinated_deltas b files m)) (get_sequencer_path self sn_id) =
     map_of b (get_sequencer_path self sn_id)" .
next
  fix spw assume "get_uncoordinated_snapshots_per_worker files m = Inr spw"
  then show "get_sequencer_path self sn_id \<notin> set (grouped_files spw)"
    using grouped_files_long short_sequencer_path by blast
qed

theorem compaction_leaves_sequencer_records_witness:
  "get_sequencer_path worker3 1 = ''uncoordinated/3/sequencer/1.bin'' \<and>
   map_of (fst (start_uncoordinated_snapshot_compaction (sequencer_store @ orders_store) 2))
     ''uncoordinated/3/sequencer/1.bin'' =
   Some (SequencerRecord [(''p'', 0) \<mapsto> 20, (''p'', 1) \<mapsto> 5] Map.empty 2 9)"
proof -
  have p: "get_sequencer_path worker3 1 = ''uncoordinated/3/sequencer/1.bin''"
    by (simp add: get_sequencer_path_def worker3_def string_eval)
  have v: "map_of (sequencer_store @ orders_store) ''uncoordinated/3/sequencer/1.bin'' =
             Some (SequencerRecord [(''p'', 0) \<mapsto> 20, (''p'', 1) \<mapsto> 5] Map.empty 2 9)"
    by (simp add: sequencer_store_def)
  from compaction_leaves_sequencer_records
         [of worker3 1 "sequencer_store @ orders_store"
             "filter (\<lambda>name. endswith name ''.bin'') (list_objects (sequencer_store @ orders_store) [])" 2]
  have "map_of (fst (start_uncoordinated_snapshot_compaction (sequencer_store @ orders_store) 2))
          (get_sequencer_path worker3 1) =
        map_of (sequencer_store @ orders_store) (get_sequencer_path worker3 1)"
    unfolding start_uncoordinated_snapshot_compaction_def by blast
  with p v show ?thesis by simp
qed


section \<open>A second compaction run\<close>

lemma bin_files_all: "name \<in> set (bin_files b []) \<longleftrightarrow> name \<in> fst ` set b \<and> endswith name ''.bin''"
  by (auto simp: bin_files_def list_objects_def startswith_def)

lemma distinct_bin_files: "distinct (map fst b) \<Longrightarrow> distinct (bin_files b pre)"
  by (simp add: bin_files_def list_objects_def)

lemma start_compaction_listing:
  "start_uncoordinated_snapshot_compaction b m = compact_uncoordinated_deltas b (bin_files b []) m"
  by (simp add: start_uncoordinated_snapshot_compaction_def bin_files_def)

lemma collect_snapshots_parsed:
  assumes "collect_snapshots files m spw = Inr spw'" and "name \<in> set files"
  shows "\<exists>r. parse_snapshot_file name = Inr r"
proof (cases "parse_snapshot_file name")
  case (Inl e)
  from collect_snapshots_raises [OF assms(2) Inl] assms(1) show ?thesis by simp
next
  case (Inr r)
  then show ?thesis by blast
qed

lemma collect_snapshots_total:
  "list_all (\<lambda>name. \<exists>r. parse_snapshot_file name = Inr r) files \<Longrightarrow>
   \<exists>spw'. collect_snapshots files m spw = Inr spw'"
proof (induction files arbitrary: spw)
  case Nil
  then show ?case by simp
next
  case (Cons f files)
  then obtain r where r: "parse_snapshot_file f = Inr r" by auto
  from Cons have ih: "\<And>spw. \<exists>spw'. collect_snapshots files m spw = Inr spw'" by simp
  show ?case
  proof (cases r)
    case None
    with r ih show ?thesis by simp
  next
    case (Some t)
    obtain w opp i where "t = (w, opp, i)" by (cases t)
    with Some r ih show ?thesis by simp
  qed
qed

lemma file_entry_Some: "file_entry m wid opp f = Some e \<Longrightarrow> snd e = f"
  by (auto simp: file_entry_def split: sum.splits option.splits if_splits)

lemma names_group_entries:
  "map snd (group_entries m wid opp files) = filter (\<lambda>f. file_entry m wid opp f \<noteq> None) files"
proof (induction files)
  case Nil
  then show ?case by (simp add: group_entries_def)
next
  case (Cons f files)
  then show ?case
    unfolding group_entries_def
    by (cases "file_entry m wid opp f") (auto dest: file_entry_Some)
qed

lemma distinct_group_entries:
  "distinct files \<Longrightarrow> distinct (map snd (group_entries m wid opp files))"
  by (simp add: names_group_entries)

lemma two_of_big:
  assumes "distinct (map snd xs)" and "1 < length xs"
  shows "\<exists>i1 n1 i2 n2. n1 \<noteq> n2 \<and> (i1, n1) \<in> set xs \<and> (i2, n2) \<in> set xs"
proof -
  from assms(2) obtain x y zs where xs: "xs = x # y # zs"
    by (cases xs; cases "tl xs") auto
  obtain i1 n1 i2 n2 where "x = (i1, n1)" "y = (i2, n2)" by (cases x; cases y) auto
  with xs assms(1) show ?thesis by auto
qed

lemma big_of_two:
  assumes "x \<in> set xs" and "y \<in> set xs" and "x \<noteq> y"
  shows "1 < length xs"
proof -
  have "card {x, y} \<le> card (set xs)" using assms by (intro card_mono) auto
  also have "\<dots> \<le> length xs" by (rule card_length)
  finally show ?thesis using assms(3) by simp
qed

text \<open>
  The run of \<open>start_uncoordinated_snapshot_compaction\<close> that returns, taken apart: a
  group is big when the listing gives it more than one entry; the files deleted are the
  entries of the big groups, and every key left in the store was there before or is the
  merged path of a big group.
\<close>

lemma first_run:
  assumes "start_uncoordinated_snapshot_compaction b m = (b1, None)"
  obtains spw td where
    "get_uncoordinated_snapshots_per_worker (bin_files b []) m = Inr spw"
    and "\<And>name. name \<in> set td \<longleftrightarrow>
              (\<exists>wid opp i. 1 < length (group_entries m wid opp (bin_files b [])) \<and>
                 (i, name) \<in> set (group_entries m wid opp (bin_files b [])))"
    and "\<And>key. key \<in> fst ` set b1 \<Longrightarrow>
              key \<notin> set td \<and>
              (key \<in> fst ` set b \<or>
               (\<exists>wid opp. 1 < length (group_entries m wid opp (bin_files b [])) \<and>
                  key = merged_snapshot_path wid opp))"
    and "distinct (map fst b) \<Longrightarrow> distinct (map fst b1)"
proof -
  let ?files = "bin_files b []"
  from assms obtain spw where g: "get_uncoordinated_snapshots_per_worker ?files m = Inr spw"
    by (auto simp: start_compaction_listing compact_uncoordinated_deltas_def split: sum.splits)
  from assms g obtain b' td where w: "compact_workers spw b [] = (b', Inr td)"
    and b1: "b1 = cleanup_compacted_files b' [] td"
    by (auto simp: start_compaction_listing compact_uncoordinated_deltas_def
          cleanup_compacted_files_def split: sum.splits prod.splits if_splits)
  note wf = groups_of_listing(1) [OF g]
  note grp = groups_of_listing(2) [OF g]
  have member: "sns = sort_key fst (group_entries m wid opp ?files)"
    if "(wid, ws) \<in> set spw" "(opp, sns) \<in> set ws" for wid ws opp sns
    using group_of_member [OF wf that] grp by simp
  have td: "name \<in> set td \<longleftrightarrow>
      (\<exists>wid opp i. 1 < length (group_entries m wid opp ?files) \<and>
         (i, name) \<in> set (group_entries m wid opp ?files))" for name
  proof
    assume "name \<in> set td"
    with compact_workers_to_delete [OF w, of name] obtain wid ws opp sns i where
      m: "(wid, ws) \<in> set spw" "(opp, sns) \<in> set ws" and l: "1 < length sns" and i: "(i, name) \<in> set sns"
      by auto
    from member [OF m] l i have "1 < length (group_entries m wid opp ?files)"
      "(i, name) \<in> set (group_entries m wid opp ?files)" by simp_all
    then show "\<exists>wid opp i. 1 < length (group_entries m wid opp ?files) \<and>
         (i, name) \<in> set (group_entries m wid opp ?files)" by blast
  next
    assume "\<exists>wid opp i. 1 < length (group_entries m wid opp ?files) \<and>
         (i, name) \<in> set (group_entries m wid opp ?files)"
    then obtain wid opp i where l: "1 < length (group_entries m wid opp ?files)"
      and i: "(i, name) \<in> set (group_entries m wid opp ?files)" by blast
    have "length (group_of spw wid opp) = length (group_entries m wid opp ?files)"
      by (simp add: grp)
    with l have "group_of spw wid opp \<noteq> []" by auto
    from group_of_nonempty [OF this] obtain ws where
      "(wid, ws) \<in> set spw" "(opp, group_of spw wid opp) \<in> set ws" by blast
    moreover have "1 < length (group_of spw wid opp)" using l by (simp add: grp)
    moreover have "(i, name) \<in> set (group_of spw wid opp)" using i by (simp add: grp)
    ultimately show "name \<in> set td"
      using compact_workers_to_delete [OF w, of name] by blast
  qed
  have keys: "key \<notin> set td \<and>
              (key \<in> fst ` set b \<or>
               (\<exists>wid opp. 1 < length (group_entries m wid opp ?files) \<and>
                  key = merged_snapshot_path wid opp))" if "key \<in> fst ` set b1" for key
  proof -
    from that have k: "key \<in> fst ` set b'" "key \<notin> set td"
      unfolding b1 keys_cleanup by auto
    from compact_workers_keys [OF w k(1)] show ?thesis
    proof
      assume "key \<in> fst ` set b"
      with k show ?thesis by simp
    next
      assume "\<exists>wid ws opp sns. (wid, ws) \<in> set spw \<and> (opp, sns) \<in> set ws \<and> 1 < length sns \<and>
        key = merged_snapshot_path wid opp"
      then obtain wid ws opp sns where
        m: "(wid, ws) \<in> set spw" "(opp, sns) \<in> set ws" and l: "1 < length sns"
        and p: "key = merged_snapshot_path wid opp" by blast
      from member [OF m] l have "1 < length (group_entries m wid opp ?files)" by simp
      with p k show ?thesis by blast
    qed
  qed
  have dist: "distinct (map fst b1)" if "distinct (map fst b)"
    unfolding b1 using compact_workers_distinct [OF w that] by (rule distinct_cleanup)
  show ?thesis
  proof (rule that [of spw td])
    show "get_uncoordinated_snapshots_per_worker ?files m = Inr spw" by (rule g)
    show "name \<in> set td \<longleftrightarrow>
              (\<exists>wid opp i. 1 < length (group_entries m wid opp ?files) \<and>
                 (i, name) \<in> set (group_entries m wid opp ?files))" for name by (rule td)
    show "key \<notin> set td \<and>
              (key \<in> fst ` set b \<or>
               (\<exists>wid opp. 1 < length (group_entries m wid opp ?files) \<and>
                  key = merged_snapshot_path wid opp))" if "key \<in> fst ` set b1" for key
      using that by (rule keys)
    show "distinct (map fst b1)" if "distinct (map fst b)" using that by (rule dist)
  qed
qed

lemma second_run:
  assumes g: "get_uncoordinated_snapshots_per_worker (bin_files b []) m = Inr spw"
    and td: "\<And>name. name \<in> set td \<longleftrightarrow>
              (\<exists>wid opp i. 1 < length (group_entries m wid opp (bin_files b [])) \<and>
                 (i, name) \<in> set (group_entries m wid opp (bin_files b [])))"
    and keys: "\<And>key. key \<in> fst ` set b1 \<Longrightarrow>
              key \<notin> set td \<and>
              (key \<in> fst ` set b \<or>
               (\<exists>wid opp. 1 < length (group_entries m wid opp (bin_files b [])) \<and>
                  key = merged_snapshot_path wid opp))"
    and d1: "distinct (map fst b1)"
  shows "start_uncoordinated_snapshot_compaction b1 m = (b1, None) \<and>
         (\<exists>spw. get_uncoordinated_snapshots_per_worker (bin_files b1 []) m = Inr spw \<and>
                groups_small spw \<and> compact_workers spw b1 [] = (b1, Inr []))"
proof -
  let ?files = "bin_files b []"
  let ?files2 = "bin_files b1 []"
  let ?big = "\<lambda>wid opp. 1 < length (group_entries m wid opp ?files)"
  from g obtain spw0 where c: "collect_snapshots ?files m [] = Inr spw0"
    by (auto simp: get_uncoordinated_snapshots_per_worker_def split: sum.splits)
  have merged: "parse_snapshot_file (merged_snapshot_path wid opp) = Inr (Some (wid, opp, 0))"
    if "?big wid opp" for wid opp
  proof -
    from that obtain e where e: "e \<in> set (group_entries m wid opp ?files)"
      by (cases "group_entries m wid opp ?files") auto
    obtain i f where "e = (i, f)" by (cases e)
    with e have "(i, f) \<in> set (group_entries m wid opp ?files)" by simp
    then have p: "parse_snapshot_file f = Inr (Some (wid, opp, i))"
      by (simp add: group_entries_mem)
    obtain op part where opp: "opp = (op, part)" by (cases opp)
    from parse_snapshot_file_Some(1) [OF p [unfolded opp]] show ?thesis
      unfolding opp by (rule parse_merged_snapshot_path)
  qed
  have listed: "name \<in> set ?files \<or> (\<exists>wid opp. ?big wid opp \<and> name = merged_snapshot_path wid opp)"
    and kept: "name \<notin> set td" if "name \<in> set ?files2" for name
    using that keys [of name] by (auto simp: bin_files_all)
  have parsed2: "\<exists>r. parse_snapshot_file name = Inr r" if "name \<in> set ?files2" for name
    using listed [OF that] collect_snapshots_parsed [OF c] merged by blast
  have entry2: "(\<not> ?big wid opp \<and> (i, name) \<in> set (group_entries m wid opp ?files)) \<or>
                (?big wid opp \<and> name = merged_snapshot_path wid opp)"
    if "(i, name) \<in> set (group_entries m wid opp ?files2)" for i name wid opp
  proof -
    from that have n: "name \<in> set ?files2"
      and p: "parse_snapshot_file name = Inr (Some (wid, opp, i))" and i: "i \<le> m"
      by (simp_all add: group_entries_mem)
    from listed [OF n] show ?thesis
    proof
      assume "name \<in> set ?files"
      with p i have e: "(i, name) \<in> set (group_entries m wid opp ?files)"
        by (simp add: group_entries_mem)
      with kept [OF n] td have "\<not> ?big wid opp" by blast
      with e show ?thesis by simp
    next
      assume "\<exists>wid opp. ?big wid opp \<and> name = merged_snapshot_path wid opp"
      then obtain wid' opp' where b: "?big wid' opp'" and nm: "name = merged_snapshot_path wid' opp'"
        by blast
      from merged [OF b] p nm have "wid' = wid" "opp' = opp" by simp_all
      with b nm show ?thesis by simp
    qed
  qed
  have small2: "length (group_entries m wid opp ?files2) \<le> 1" for wid opp
  proof (rule ccontr)
    assume "\<not> length (group_entries m wid opp ?files2) \<le> 1"
    then have "1 < length (group_entries m wid opp ?files2)" by simp
    from two_of_big [OF distinct_group_entries [OF distinct_bin_files [OF d1]] this]
    obtain i1 n1 i2 n2 where ne: "n1 \<noteq> n2"
      and e1: "(i1, n1) \<in> set (group_entries m wid opp ?files2)"
      and e2: "(i2, n2) \<in> set (group_entries m wid opp ?files2)" by blast
    show False
    proof (cases "?big wid opp")
      case True
      with entry2 [OF e1] entry2 [OF e2] ne show False by simp
    next
      case False
      with entry2 [OF e1] entry2 [OF e2] have
        "(i1, n1) \<in> set (group_entries m wid opp ?files)"
        "(i2, n2) \<in> set (group_entries m wid opp ?files)" by simp_all
      moreover have "(i1, n1) \<noteq> (i2, n2)" using ne by simp
      ultimately have "?big wid opp" by (rule big_of_two)
      with False show False by simp
    qed
  qed
  have "list_all (\<lambda>name. \<exists>r. parse_snapshot_file name = Inr r) ?files2"
    using parsed2 by (simp add: list_all_iff)
  from collect_snapshots_total [OF this] obtain spw20 where
    "collect_snapshots ?files2 m [] = Inr spw20" by blast
  then have "get_uncoordinated_snapshots_per_worker ?files2 m = Inr (sort_snapshots spw20)"
    by (simp add: get_uncoordinated_snapshots_per_worker_def)
  then obtain spw2 where
    g2: "get_uncoordinated_snapshots_per_worker ?files2 m = Inr spw2" by blast
  have "length sns \<le> 1" if "(wid, ws) \<in> set spw2" "(opp, sns) \<in> set ws" for wid ws opp sns
  proof -
    from group_of_member [OF groups_of_listing(1) [OF g2] that] groups_of_listing(2) [OF g2]
    have "sns = sort_key fst (group_entries m wid opp ?files2)" by simp
    with small2 show ?thesis by simp
  qed
  then have sm: "groups_small spw2" unfolding groups_small_def list_all_iff by blast
  then have w2: "compact_workers spw2 b1 [] = (b1, Inr [])" by (rule compact_workers_small)
  with g2 have "start_uncoordinated_snapshot_compaction b1 m = (b1, None)"
    by (simp add: start_compaction_listing compact_uncoordinated_deltas_def)
  with g2 sm w2 show ?thesis by blast
qed

text \<open>
  C6. The store holds each key once and a first run with bound \<open>m\<close> has returned.
  A second run with the same bound on the store the first one left lists that store,
  finds no group with more than one delta, merges and writes nothing, marks nothing for
  deletion, raises nothing, and leaves the store as it found it.
\<close>

theorem compaction_idempotent:
  assumes d: "distinct (map fst b)"
    and run: "start_uncoordinated_snapshot_compaction b m = (b1, None)"
  shows "start_uncoordinated_snapshot_compaction b1 m = (b1, None) \<and>
         (\<exists>spw. get_uncoordinated_snapshots_per_worker (bin_files b1 []) m = Inr spw \<and>
                groups_small spw \<and> compact_workers spw b1 [] = (b1, Inr []))"
proof (rule first_run [OF run])
  fix spw td
  assume g: "get_uncoordinated_snapshots_per_worker (bin_files b []) m = Inr spw"
    and td: "\<And>name. name \<in> set td \<longleftrightarrow>
              (\<exists>wid opp i. 1 < length (group_entries m wid opp (bin_files b [])) \<and>
                 (i, name) \<in> set (group_entries m wid opp (bin_files b [])))"
    and keys: "\<And>key. key \<in> fst ` set b1 \<Longrightarrow>
              key \<notin> set td \<and>
              (key \<in> fst ` set b \<or>
               (\<exists>wid opp. 1 < length (group_entries m wid opp (bin_files b [])) \<and>
                  key = merged_snapshot_path wid opp))"
    and d1: "distinct (map fst b) \<Longrightarrow> distinct (map fst b1)"
  from d1 d have "distinct (map fst b1)" .
  with g td keys show ?thesis by (rule second_run)
qed

theorem compaction_idempotent_witness:
  "distinct (map fst (tl orders_store)) \<and>
   start_uncoordinated_snapshot_compaction (tl orders_store) 2 =
     ([(''uncoordinated/3/orders/0/0.bin'', StateDelta [''b'' \<mapsto> 3, ''c'' \<mapsto> 4, ''a'' \<mapsto> 5])],
      None) \<and>
   start_uncoordinated_snapshot_compaction
     ([(''uncoordinated/3/orders/0/0.bin'', StateDelta [''b'' \<mapsto> 3, ''c'' \<mapsto> 4, ''a'' \<mapsto> 5])]
        :: (string, int) bucket) 2 =
     ([(''uncoordinated/3/orders/0/0.bin'', StateDelta [''b'' \<mapsto> 3, ''c'' \<mapsto> 4, ''a'' \<mapsto> 5])],
      None)"
proof -
  have h1: "distinct (map fst (tl orders_store))" by (simp add: orders_store_def)
  have h2: "start_uncoordinated_snapshot_compaction (tl orders_store) 2 =
     ([(''uncoordinated/3/orders/0/0.bin'', StateDelta [''b'' \<mapsto> 3, ''c'' \<mapsto> 4, ''a'' \<mapsto> 5])],
      None)"
    by (simp add: orders_store_def compactor_eval string_eval store_eval)
  from compaction_idempotent [OF h1 h2] h1 h2 show ?thesis by simp
qed

end
